theory Spec2Isabelle
  imports Complex_Main "HOL-Library.Word" "HOL-Library.Monad_Syntax" "HOL-Library.Signed_Division"
begin

section \<open>Manual control mode: data model\<close>

text \<open>
  A shallow embedding of \<^verbatim>\<open>Marlin/src/feature/manual_control.cpp\<close>.
  Machine integers are words of the declared width: \<^verbatim>\<open>uint8_t\<close>, \<^verbatim>\<open>uint16_t\<close> and
  \<^verbatim>\<open>uint32_t\<close> wrap around; \<^verbatim>\<open>int32_t\<close> is a 32-bit word read through \<open>sint\<close> and
  compared with the signed orders, with the two's complement wrap-around of the target.
  An access outside an array, or a read of a scratch cell that was never written, is the
  result \<open>None\<close>.
\<close>

type_synonym u8 = "8 word"
type_synonym u16 = "16 word"
type_synonym u32 = "32 word"
type_synonym i32 = "32 word"

datatype pin =
    X_ENABLE_PIN | X_STEP_PIN | X_DIR_PIN | Y_STEP_PIN | Y_DIR_PIN
  | Z_STEP_PIN | Z_DIR_PIN | E0_STEP_PIN | E0_DIR_PIN | TEMP_0_PIN | TEMP_BED_PIN

datatype level = LOW | HIGH

text \<open>
  What one \<^verbatim>\<open>SERIAL_ECHO\<close> prints. The two thermistor readers print binary32 values;
  these stay symbolic: \<open>Voltage a\<close> is \<^verbatim>\<open>(a * 3.3f) / 4095.0f\<close> and \<open>RESISTANCE_REPORT a\<close>
  is the text that lines 52-62 (75-85) choose from \<^verbatim>\<open>calculate_resistance\<close> of that voltage.
\<close>

datatype echo = Text string | U16 u16 | I32 i32 | Voltage u16

datatype event =
    WRITE pin level
  | DELAY_US nat
  | SERIAL_ECHO echo
  | SERIAL_ECHOLN echo
  | SERIAL_ECHOLNPGM string
  | RESISTANCE_REPORT u16
  | watchdog_refresh

text \<open>
  What the file takes from outside: the clock, the ADC, and \<^verbatim>\<open>map\<close>, whose definition is
  not part of the file. One value of this record is the environment of one call.
\<close>

record env =
  millis :: u32
  analogRead :: "pin \<Rightarrow> u16"
  map_fn :: "i32 \<Rightarrow> i32 \<Rightarrow> i32 \<Rightarrow> i32 \<Rightarrow> i32 \<Rightarrow> i32"

text \<open>
  The file's static variables (lines 19-30 and the function-local static of line 200), and
  the trace of everything written to pins, the serial line, the delay loop and the watchdog.
\<close>

record state =
  adc_control_active :: bool
  adc_current_position :: i32
  adc_target_position :: i32
  adc_range :: u16
  position_range :: i32
  last_adc_move :: u32
  adc_buffer :: "u16 list"
  adc_buffer_index :: u8
  adc_buffer_filled :: bool
  update_counter :: u8
  trace :: "event list"

abbreviation ADC_SAMPLES :: nat where
  "ADC_SAMPLES \<equiv> 8"

definition initial_state :: state where
  "initial_state =
     \<lparr> adc_control_active = False,
       adc_current_position = 0,
       adc_target_position = 0,
       adc_range = 4095,
       position_range = 6400,
       last_adc_move = 0,
       adc_buffer = replicate ADC_SAMPLES 0,
       adc_buffer_index = 0,
       adc_buffer_filled = False,
       update_counter = 0,
       trace = [] \<rparr>"

definition emit :: "event list \<Rightarrow> state \<Rightarrow> state" where
  "emit evs s = s\<lparr>trace := trace s @ evs\<rparr>"

text \<open>Array cells: \<open>None\<close> outside the array and, in the scratch array, on a cell never written.\<close>

definition array_set :: "'a list \<Rightarrow> nat \<Rightarrow> 'a \<Rightarrow> 'a list option" where
  "array_set a i v = (if i < length a then Some (a[i := v]) else None)"

definition array_get :: "'a list \<Rightarrow> nat \<Rightarrow> 'a option" where
  "array_get a i = (if i < length a then Some (a ! i) else None)"

definition scratch_get :: "u16 option list \<Rightarrow> nat \<Rightarrow> u16 option" where
  "scratch_get a i = (if i < length a then a ! i else None)"

text \<open>Signed 32-bit arithmetic of C: \<^verbatim>\<open>/\<close> truncates towards zero.\<close>

definition sdiv32 :: "i32 \<Rightarrow> i32 \<Rightarrow> i32" where
  "sdiv32 a b = word_of_int (sint a sdiv sint b)"

definition abs_i32 :: "i32 \<Rightarrow> i32" where
  "abs_i32 x = (if x <s 0 then - x else x)"

section \<open>Resistance estimator (lines 33-40)\<close>

text \<open>
  \<^verbatim>\<open>calculate_resistance\<close> computes in binary32. Its values are real numbers, and every
  operation is the exact operation followed by the rounding of the format, which is a
  parameter \<open>rnd\<close> here. The literal \<^verbatim>\<open>3.3f\<close> is the binary32 number next to 3.3, which is
  13841203 / 4194304 and lies below 3.3; the literals 0 and 999999 are exact.
\<close>

definition supply_f :: real where
  "supply_f = 13841203 / 4194304"

definition calculate_resistance :: "(real \<Rightarrow> real) \<Rightarrow> real \<Rightarrow> real \<Rightarrow> real" where
  "calculate_resistance rnd voltage pullup_resistance =
     (if voltage \<ge> supply_f then 0
      else if voltage \<le> 0 then 999999
      else rnd (rnd (voltage * pullup_resistance) / rnd (supply_f - voltage)))"

text \<open>
  What is used of the rounding, for a set \<open>F\<close> of representable numbers: it is monotone, it
  keeps 0, and the difference of two distinct numbers of \<open>F\<close> does not round to 0.
\<close>

definition rounding :: "real set \<Rightarrow> (real \<Rightarrow> real) \<Rightarrow> bool" where
  "rounding F rnd \<longleftrightarrow>
     (\<forall>x y. x \<le> y \<longrightarrow> rnd x \<le> rnd y) \<and> rnd 0 = 0
     \<and> (\<forall>a\<in>F. \<forall>b\<in>F. a < b \<longrightarrow> 0 < rnd (b - a))"

section \<open>Step actuator (lines 88-122)\<close>

function move_loop :: "pin \<Rightarrow> u16 \<Rightarrow> u16 \<Rightarrow> state \<Rightarrow> state" where
  "move_loop step_pin steps i s =
     (if i < steps then
        move_loop step_pin steps (i + 1)
          (emit ([WRITE step_pin HIGH, DELAY_US 500, WRITE step_pin LOW, DELAY_US 1500]
                 @ (if i mod 10 = 0 then [watchdog_refresh] else [])) s)
      else s)"
  by pat_completeness auto
termination
proof (relation "measure (\<lambda>(p, steps, i, s). unat steps - unat i)")
  show "wf (measure (\<lambda>(p, steps, i, s). unat steps - unat i))"
    by simp
next
  fix step_pin :: pin and steps i :: u16 and s :: state
  assume "i < steps"
  then have lt: "unat i < unat steps"
    by (simp add: word_less_nat_alt)
  moreover have "unat steps < 2 ^ 16"
    using unsigned_less [of steps] by simp
  ultimately have "unat (i + 1) = Suc (unat i)"
    by (simp add: unat_word_ariths)
  with lt show "((step_pin, steps, i + 1,
          emit ([WRITE step_pin HIGH, DELAY_US 500, WRITE step_pin LOW, DELAY_US 1500]
                @ (if i mod 10 = 0 then [watchdog_refresh] else [])) s),
         (step_pin, steps, i, s)) \<in> measure (\<lambda>(p, steps, i, s). unat steps - unat i)"
    by simp
qed

definition manual_move_axis :: "pin \<Rightarrow> pin \<Rightarrow> bool \<Rightarrow> u16 \<Rightarrow> state \<Rightarrow> state" where
  "manual_move_axis step_pin dir_pin direction steps s =
     (let s1 = emit [WRITE X_ENABLE_PIN LOW,
                     WRITE dir_pin (if direction then HIGH else LOW),
                     DELAY_US 10,
                     SERIAL_ECHO (Text ''Moving ''),
                     SERIAL_ECHO (U16 steps),
                     SERIAL_ECHOLNPGM (if direction then '' steps forward'' else '' steps backward'')] s;
          s2 = move_loop step_pin steps 0 s1
      in emit [SERIAL_ECHOLNPGM ''Move complete''] s2)"

definition manual_enable_steppers :: "state \<Rightarrow> state" where
  "manual_enable_steppers s =
     emit [WRITE X_ENABLE_PIN LOW, SERIAL_ECHOLNPGM ''Steppers ENABLED''] s"

definition manual_disable_steppers :: "state \<Rightarrow> state" where
  "manual_disable_steppers s =
     emit [WRITE X_ENABLE_PIN HIGH,
           SERIAL_ECHOLNPGM ''Steppers DISABLED - Manual movement allowed''] s"

section \<open>Thermistor readers (lines 42-86)\<close>

definition manual_read_hotend_thermistor :: "env \<Rightarrow> state \<Rightarrow> state" where
  "manual_read_hotend_thermistor e s =
     (let adcValue = analogRead e TEMP_0_PIN
      in emit [SERIAL_ECHO (Text ''Hotend ADC Input - ADC: ''),
               SERIAL_ECHO (U16 adcValue),
               SERIAL_ECHO (Text '', Voltage: ''),
               SERIAL_ECHO (Voltage adcValue),
               SERIAL_ECHO (Text ''V, Calculated R: ''),
               RESISTANCE_REPORT adcValue] s)"

definition manual_read_bed_thermistor :: "env \<Rightarrow> state \<Rightarrow> state" where
  "manual_read_bed_thermistor e s =
     (let adcValue = analogRead e TEMP_BED_PIN
      in emit [SERIAL_ECHO (Text ''Bed ADC Input - ADC: ''),
               SERIAL_ECHO (U16 adcValue),
               SERIAL_ECHO (Text '', Voltage: ''),
               SERIAL_ECHO (Voltage adcValue),
               SERIAL_ECHO (Text ''V, Calculated R: ''),
               RESISTANCE_REPORT adcValue] s)"

section \<open>Sample filter (lines 130-160)\<close>

text \<open>Lines 132-138: store the reading, advance the index, mark the ring as filled.\<close>

definition push_sample :: "u16 \<Rightarrow> state \<Rightarrow> state option" where
  "push_sample raw_adc s =
     do {
       buf \<leftarrow> array_set (adc_buffer s) (unat (adc_buffer_index s)) raw_adc;
       let idx = (of_nat ((unat (adc_buffer_index s) + 1) mod ADC_SAMPLES) :: u8);
       Some (s\<lparr> adc_buffer := buf,
                adc_buffer_index := idx,
                adc_buffer_filled :=
                  (if idx = 0 \<and> \<not> adc_buffer_filled s then True else adc_buffer_filled s) \<rparr>)
     }"

text \<open>Line 141.\<close>

definition samples_to_use :: "state \<Rightarrow> u8" where
  "samples_to_use s = (if adc_buffer_filled s then of_nat ADC_SAMPLES else adc_buffer_index s)"

text \<open>Lines 145-147: the copy into the scratch array.\<close>

function copy_loop :: "u16 list \<Rightarrow> u16 option list \<Rightarrow> u8 \<Rightarrow> u8 \<Rightarrow> u16 option list option" where
  "copy_loop buf sorted_buffer n i =
     (if i < n then
        do {
          v \<leftarrow> array_get buf (unat i);
          sb \<leftarrow> array_set sorted_buffer (unat i) (Some v);
          copy_loop buf sb n (i + 1)
        }
      else Some sorted_buffer)"
  by pat_completeness auto
termination
proof (relation "measure (\<lambda>(buf, sb, n, i). unat n - unat i)")
  show "wf (measure (\<lambda>(buf, sb, n, i). unat n - unat i))"
    by simp
next
  fix buf :: "u16 list" and sorted_buffer sb :: "u16 option list" and n i :: u8
  assume "i < n"
  then have lt: "unat i < unat n"
    by (simp add: word_less_nat_alt)
  moreover have "unat n < 2 ^ 8"
    using unsigned_less [of n] by simp
  ultimately have "unat (i + 1) = Suc (unat i)"
    by (simp add: unat_word_ariths)
  with lt show "((buf, sb, n, i + 1), (buf, sorted_buffer, n, i))
          \<in> measure (\<lambda>(buf, sb, n, i). unat n - unat i)"
    by simp
qed

text \<open>
  Lines 150-158: the bubble sort. The loop bounds are computed in \<^verbatim>\<open>int\<close>, after the
  integer promotion of the \<^verbatim>\<open>uint8_t\<close> operands.
\<close>

function bubble_inner :: "u16 option list \<Rightarrow> u8 \<Rightarrow> u8 \<Rightarrow> u8 \<Rightarrow> u16 option list option" where
  "bubble_inner sorted_buffer n i j =
     (if int (unat j) < int (unat n) - int (unat i) - 1 then
        do {
          a \<leftarrow> scratch_get sorted_buffer (unat j);
          b \<leftarrow> scratch_get sorted_buffer (unat j + 1);
          sb \<leftarrow> (if a > b then
                  do {
                    t \<leftarrow> array_set sorted_buffer (unat j) (Some b);
                    array_set t (unat j + 1) (Some a)
                  }
                else Some sorted_buffer);
          bubble_inner sb n i (j + 1)
        }
      else Some sorted_buffer)"
  by pat_completeness auto
termination
proof (relation "measure (\<lambda>(sb, n, i, j). unat n - unat i - 1 - unat j)")
  show "wf (measure (\<lambda>(sb, n, i, j). unat n - unat i - 1 - unat j))"
    by simp
next
  fix sorted_buffer sb :: "u16 option list" and n i j :: u8
  assume "int (unat j) < int (unat n) - int (unat i) - 1"
  then have lt: "unat j < unat n - unat i - 1"
    by linarith
  moreover have "unat n < 2 ^ 8"
    using unsigned_less [of n] by simp
  ultimately have "unat (j + 1) = Suc (unat j)"
    by (simp add: unat_word_ariths)
  with lt show "((sb, n, i, j + 1), (sorted_buffer, n, i, j))
          \<in> measure (\<lambda>(sb, n, i, j). unat n - unat i - 1 - unat j)"
    by simp
qed

function bubble_outer :: "u16 option list \<Rightarrow> u8 \<Rightarrow> u8 \<Rightarrow> u16 option list option" where
  "bubble_outer sorted_buffer n i =
     (if int (unat i) < int (unat n) - 1 then
        do {
          sb \<leftarrow> bubble_inner sorted_buffer n i 0;
          bubble_outer sb n (i + 1)
        }
      else Some sorted_buffer)"
  by pat_completeness auto
termination
proof (relation "measure (\<lambda>(sb, n, i). unat n - 1 - unat i)")
  show "wf (measure (\<lambda>(sb, n, i). unat n - 1 - unat i))"
    by simp
next
  fix sorted_buffer sb :: "u16 option list" and n i :: u8
  assume "int (unat i) < int (unat n) - 1"
  then have lt: "unat i < unat n - 1"
    by linarith
  moreover have "unat n < 2 ^ 8"
    using unsigned_less [of n] by simp
  ultimately have "unat (i + 1) = Suc (unat i)"
    by (simp add: unat_word_ariths)
  with lt show "((sb, n, i + 1), (sorted_buffer, n, i)) \<in> measure (\<lambda>(sb, n, i). unat n - 1 - unat i)"
    by simp
qed

text \<open>Lines 141-160: the median of the valid samples.\<close>

definition filtered_value :: "state \<Rightarrow> u16 option" where
  "filtered_value s =
     do {
       let n = samples_to_use s;
       sb0 \<leftarrow> copy_loop (adc_buffer s) (replicate ADC_SAMPLES None) n 0;
       sb1 \<leftarrow> bubble_outer sb0 n 0;
       scratch_get sb1 (unat n div 2)
     }"

section \<open>Position tracker (lines 124-215)\<close>

text \<open>Lines 184-195: one pulse and one unit of \<^verbatim>\<open>adc_current_position\<close> per round.\<close>

function step_loop :: "bool \<Rightarrow> u16 \<Rightarrow> u16 \<Rightarrow> state \<Rightarrow> state" where
  "step_loop direction steps_to_move i s =
     (if i < steps_to_move then
        step_loop direction steps_to_move (i + 1)
          (emit (if i mod 5 = 0 then [watchdog_refresh] else [])
             ((emit [WRITE Y_STEP_PIN HIGH, DELAY_US 500, WRITE Y_STEP_PIN LOW, DELAY_US 500] s)
                \<lparr>adc_current_position := adc_current_position s + (if direction then 1 else - 1)\<rparr>))
      else s)"
  by pat_completeness auto
termination
proof (relation "measure (\<lambda>(d, steps, i, s). unat steps - unat i)")
  show "wf (measure (\<lambda>(d, steps, i, s). unat steps - unat i))"
    by simp
next
  fix direction :: bool and steps_to_move i :: u16 and s :: state
  assume "i < steps_to_move"
  then have lt: "unat i < unat steps_to_move"
    by (simp add: word_less_nat_alt)
  moreover have "unat steps_to_move < 2 ^ 16"
    using unsigned_less [of steps_to_move] by simp
  ultimately have "unat (i + 1) = Suc (unat i)"
    by (simp add: unat_word_ariths)
  with lt show "((direction, steps_to_move, i + 1,
          emit (if i mod 5 = 0 then [watchdog_refresh] else [])
            ((emit [WRITE Y_STEP_PIN HIGH, DELAY_US 500, WRITE Y_STEP_PIN LOW, DELAY_US 500] s)
               \<lparr>adc_current_position := adc_current_position s + (if direction then 1 else - 1)\<rparr>)),
         (direction, steps_to_move, i, s)) \<in> measure (\<lambda>(d, steps, i, s). unat steps - unat i)"
    by simp
qed

text \<open>Lines 170-213: the body of \<^verbatim>\<open>if (abs(position_error) > 5)\<close>.\<close>

definition corrective_move :: "u32 \<Rightarrow> u16 \<Rightarrow> u16 \<Rightarrow> i32 \<Rightarrow> state \<Rightarrow> state" where
  "corrective_move now raw_adc adcValue position_error s =
     (let s1 = emit [WRITE X_ENABLE_PIN LOW] s;
          direction = (0 <s position_error);
          steps_to_move = min (ucast (abs_i32 position_error) :: u16) 10;
          s2 = emit [WRITE Y_DIR_PIN (if direction then HIGH else LOW), DELAY_US 10] s1;
          s3 = step_loop direction steps_to_move 0 s2;
          s4 = s3\<lparr>last_adc_move := now\<rparr>;
          c = update_counter s4 + 1
      in if 25 \<le> c then
           emit [SERIAL_ECHO (Text ''ADC Position Control - Raw: ''),
                 SERIAL_ECHO (U16 raw_adc),
                 SERIAL_ECHO (Text '', Median: ''),
                 SERIAL_ECHO (U16 adcValue),
                 SERIAL_ECHO (Text '', Target: ''),
                 SERIAL_ECHO (I32 (adc_target_position s4)),
                 SERIAL_ECHO (Text '', Current: ''),
                 SERIAL_ECHO (I32 (adc_current_position s4)),
                 SERIAL_ECHO (Text '', Error: ''),
                 SERIAL_ECHOLN (I32 position_error)]
             (s4\<lparr>update_counter := 0\<rparr>)
         else s4\<lparr>update_counter := c\<rparr>)"

definition manual_adc_control_y :: "env \<Rightarrow> state \<Rightarrow> state option" where
  "manual_adc_control_y e s =
     (if \<not> adc_control_active s then Some s
      else
        let now = millis e in
        if now - last_adc_move s < 10 then Some s
        else
          do {
            let raw_adc = analogRead e TEMP_BED_PIN;
            s1 \<leftarrow> push_sample raw_adc s;
            adcValue \<leftarrow> filtered_value s1;
            let s2 = s1\<lparr>adc_target_position :=
                          map_fn e (ucast adcValue) 0 (ucast (adc_range s1))
                            (sdiv32 (- position_range s1) 2) (sdiv32 (position_range s1) 2)\<rparr>;
            let position_error = adc_target_position s2 - adc_current_position s2;
            Some (if 5 <s abs_i32 position_error
                  then corrective_move now raw_adc adcValue position_error s2
                  else s2)
          })"

section \<open>Command interpreter (lines 217-338)\<close>

definition is_digit :: "char \<Rightarrow> bool" where
  "is_digit c \<longleftrightarrow> 48 \<le> (of_char c :: nat) \<and> (of_char c :: nat) \<le> 57"

text \<open>
  The digit loop of lines 224-227 (on \<^verbatim>\<open>uint16_t\<close>) and that of lines 300-303 (on \<^verbatim>\<open>int32_t\<close>): the
  accumulator has the width of the variable, and the end of the list is the terminating NUL.
\<close>

fun parse_digits :: "string \<Rightarrow> 'a::len word \<Rightarrow> 'a word" where
  "parse_digits [] acc = acc"
| "parse_digits (c # cs) acc =
     (if is_digit c then parse_digits cs (acc * 10 + of_nat (of_char c - 48)) else acc)"

text \<open>
  Lines 218-230. \<^verbatim>\<open>command + 2\<close> lies inside the string only when it has two characters
  or more, as it has at every call.
\<close>

definition parse_steps :: "string \<Rightarrow> u16 \<Rightarrow> u16 option" where
  "parse_steps command defaultSteps =
     (if length command < 2 then None
      else
        let numStart = drop 2 command in
        if numStart = [] then Some defaultSteps
        else
          let steps = (parse_digits numStart 0 :: u16) in
          Some (if 0 < steps \<and> steps \<le> 10000 then steps else defaultSteps))"

text \<open>
  One of the eight jog branches of lines 240-271: read the step count, then move the axis.
\<close>

definition jog :: "string \<Rightarrow> u16 \<Rightarrow> pin \<Rightarrow> pin \<Rightarrow> bool \<Rightarrow> state \<Rightarrow> state option" where
  "jog command defaultSteps step_pin dir_pin direction s =
     do {
       steps \<leftarrow> parse_steps command defaultSteps;
       Some (manual_move_axis step_pin dir_pin direction steps s)
     }"

text \<open>The two bytes of the plus-minus sign in the range messages.\<close>

definition plus_minus :: string where
  "plus_minus = [char_of (194 :: nat), char_of (177 :: nat)]"

definition help_text :: "string list" where
  "help_text =
     [''Commands:'',
      ''h - Read hotend thermistor'',
      ''b - Read bed thermistor'',
      ''x+[steps] - Move X positive (e.g., x+50)'',
      ''x-[steps] - Move X negative'',
      ''y+[steps] - Move Y positive'',
      ''y-[steps] - Move Y negative'',
      ''z+[steps] - Move Z up (default 10)'',
      ''z-[steps] - Move Z down'',
      ''e+[steps] - Extrude (default 50)'',
      ''e-[steps] - Retract'',
      ''on - Enable steppers'',
      ''off - Disable steppers'',
      ''adc_on - Enable ADC position control'',
      ''adc_off - Disable ADC position control'',
      ''adc_zero - Reset current position to zero'',
      ''adc_range[value] - Set position range'']"

definition process_manual_command :: "env \<Rightarrow> string \<Rightarrow> state \<Rightarrow> state option" where
  "process_manual_command e command s =
     (if command = ''h'' then Some (manual_read_hotend_thermistor e s)
      else if command = ''b'' then Some (manual_read_bed_thermistor e s)
      else if take 2 command = ''x+'' then jog command 100 X_STEP_PIN X_DIR_PIN True s
      else if take 2 command = ''x-'' then jog command 100 X_STEP_PIN X_DIR_PIN False s
      else if take 2 command = ''y+'' then jog command 100 Y_STEP_PIN Y_DIR_PIN True s
      else if take 2 command = ''y-'' then jog command 100 Y_STEP_PIN Y_DIR_PIN False s
      else if take 2 command = ''z+'' then jog command 10 Z_STEP_PIN Z_DIR_PIN True s
      else if take 2 command = ''z-'' then jog command 10 Z_STEP_PIN Z_DIR_PIN False s
      else if take 2 command = ''e+'' then jog command 50 E0_STEP_PIN E0_DIR_PIN True s
      else if take 2 command = ''e-'' then jog command 50 E0_STEP_PIN E0_DIR_PIN False s
      else if command = ''on'' then Some (manual_enable_steppers s)
      else if command = ''off'' then Some (manual_disable_steppers s)
      else if command = ''adc_on'' then
        Some (emit [SERIAL_ECHOLNPGM ''ADC Position Control ENABLED - ADC controls Y position'',
                    SERIAL_ECHO (Text ''Range: ''),
                    SERIAL_ECHO (I32 (sdiv32 (- position_range s) 2)),
                    SERIAL_ECHO (Text '' to +''),
                    SERIAL_ECHO (I32 (sdiv32 (position_range s) 2)),
                    SERIAL_ECHOLNPGM '' steps'']
                (manual_enable_steppers (s\<lparr>adc_control_active := True\<rparr>)))
      else if command = ''adc_off'' then
        Some (emit [SERIAL_ECHOLNPGM ''ADC Position Control DISABLED'']
                (s\<lparr>adc_control_active := False\<rparr>))
      else if command = ''adc_zero'' then
        Some (emit [SERIAL_ECHOLNPGM ''Current position reset to zero'']
                (s\<lparr>adc_current_position := 0\<rparr>))
      else if take 9 command = ''adc_range'' then
        (let numStart = drop 9 command in
         if numStart \<noteq> [] then
           (let new_range = (parse_digits numStart 0 :: i32) in
            if 0 <s new_range \<and> new_range \<le>s 50000 then
              (let s1 = s\<lparr>position_range := new_range\<rparr>
               in Some (emit [SERIAL_ECHO (Text (''Position range set to '' @ plus_minus)),
                              SERIAL_ECHOLN (I32 (sdiv32 (position_range s1) 2))] s1))
            else Some s)
         else
           Some (emit [SERIAL_ECHO (Text (''Current position range: '' @ plus_minus)),
                       SERIAL_ECHOLN (I32 (sdiv32 (position_range s) 2))] s))
      else if command = ''help'' then Some (emit (map SERIAL_ECHOLNPGM help_text) s)
      else if length command > 0 then
        Some (emit [SERIAL_ECHO (Text ''Unknown command: ''),
                    SERIAL_ECHO (Text command),
                    SERIAL_ECHOLNPGM '' (type 'help' for commands)''] s)
      else Some s)"

text \<open>Each loop is unfolded by hand, one round at a time.\<close>

declare move_loop.simps [simp del]
declare copy_loop.simps [simp del]
declare bubble_inner.simps [simp del]
declare bubble_outer.simps [simp del]
declare step_loop.simps [simp del]

section \<open>Derived notions\<close>

text \<open>The static variables of a state, without the trace.\<close>

definition statics :: "state \<Rightarrow> state" where
  "statics s = s\<lparr>trace := []\<rparr>"

text \<open>What one command line does to the static variables, as one table.\<close>

definition command_effect :: "string \<Rightarrow> state \<Rightarrow> state" where
  "command_effect command s =
     (if command = ''adc_on'' then s\<lparr>adc_control_active := True\<rparr>
      else if command = ''adc_off'' then s\<lparr>adc_control_active := False\<rparr>
      else if command = ''adc_zero'' then s\<lparr>adc_current_position := 0\<rparr>
      else if take 9 command = ''adc_range'' \<and> drop 9 command \<noteq> []
                \<and> 0 <s (parse_digits (drop 9 command) 0 :: i32)
                \<and> (parse_digits (drop 9 command) 0 :: i32) \<le>s 50000
      then s\<lparr>position_range := parse_digits (drop 9 command) 0\<rparr>
      else s)"

text \<open>Consecutive pushes into the ring, first reading first.\<close>

fun push_samples :: "u16 list \<Rightarrow> state \<Rightarrow> state option" where
  "push_samples [] s = Some s"
| "push_samples (x # xs) s = push_sample x s \<bind> push_samples xs"

text \<open>
  A sample environment: 10 ms on the clock, the ADC at full scale, where a linear
  rescaling yields \<open>out_max\<close>.
\<close>

definition env_full_scale :: env where
  "env_full_scale =
     \<lparr> millis = 10,
       analogRead = (\<lambda>p. 4095),
       map_fn = (\<lambda>x in_min in_max out_min out_max. out_max) \<rparr>"

text \<open>A sample run: tracking switched on, one tick, tracking switched off.\<close>

definition after_tracking :: "state option" where
  "after_tracking =
     process_manual_command env_full_scale ''adc_on'' initial_state
       \<bind> manual_adc_control_y env_full_scale
       \<bind> process_manual_command env_full_scale ''adc_off''"

text \<open>The ring has its eight cells and the index points into it.\<close>

definition ring_ok :: "state \<Rightarrow> bool" where
  "ring_ok s \<longleftrightarrow> length (adc_buffer s) = ADC_SAMPLES \<and> unat (adc_buffer_index s) < ADC_SAMPLES"

text \<open>The scratch array has its eight cells and the first \<open>m\<close> of them have been written.\<close>

definition written_upto :: "u16 option list \<Rightarrow> nat \<Rightarrow> bool" where
  "written_upto sb m \<longleftrightarrow> length sb = ADC_SAMPLES \<and> (\<forall>k<m. sb ! k \<noteq> None)"

text \<open>The step pulses of the tracked axis in a trace: the rising edges on its step pin.\<close>

definition pulses :: "event list \<Rightarrow> nat" where
  "pulses evs = count_list evs (WRITE Y_STEP_PIN HIGH)"

text \<open>
  One more sample environment: a reading at mid-scale, which \<^verbatim>\<open>map\<close> takes to position 0.
\<close>

definition env_centre :: env where
  "env_centre =
     \<lparr> millis = 10,
       analogRead = (\<lambda>p. 2048),
       map_fn = (\<lambda>x in_min in_max out_min out_max. 0) \<rparr>"

text \<open>The state after \<^verbatim>\<open>adc_on\<close> on the initial state.\<close>

definition tracking_on :: state where
  "tracking_on = the (process_manual_command env_full_scale ''adc_on'' initial_state)"

text \<open>The state after one tick at full scale on it.\<close>

definition tracking_step :: state where
  "tracking_step = the (manual_adc_control_y env_full_scale tracking_on)"

text \<open>
  Modelled from the spec: \<^verbatim>\<open>map\<close>, which the file calls in line 163 and does not define.
  Section 4.4, step 3, has it rescale the reading linearly from 0..max_adc onto
  [-range/2, +range/2]; this is the usual integer formula for that, in 32-bit arithmetic
  with the truncating division of C.
\<close>

definition linear_map :: "i32 \<Rightarrow> i32 \<Rightarrow> i32 \<Rightarrow> i32 \<Rightarrow> i32 \<Rightarrow> i32" where
  "linear_map x in_min in_max out_min out_max =
     sdiv32 ((x - in_min) * (out_max - out_min)) (in_max - in_min) + out_min"

text \<open>
  The environments of the running firmware: \<^verbatim>\<open>map\<close> is that rescaling and the ADC delivers
  12-bit readings.
\<close>

definition firmware_env :: "env \<Rightarrow> bool" where
  "firmware_env e \<longleftrightarrow> map_fn e = linear_map \<and> analogRead e TEMP_BED_PIN \<le> 4095"

text \<open>Such an environment, with the clock at \<open>t\<close> and the reading \<open>r\<close> on every channel.\<close>

definition env_at :: "u32 \<Rightarrow> u16 \<Rightarrow> env" where
  "env_at t r = \<lparr> millis = t, analogRead = (\<lambda>p. r), map_fn = linear_map \<rparr>"

text \<open>Consecutive ticks, each at its own time and reading.\<close>

fun run_ticks :: "(u32 \<times> u16) list \<Rightarrow> state \<Rightarrow> state option" where
  "run_ticks [] s = Some s"
| "run_ticks ((t, r) # trs) s = manual_adc_control_y (env_at t r) s \<bind> run_ticks trs"

text \<open>
  A sample run: eight ticks after \<^verbatim>\<open>adc_on\<close>. The first two move the axis, the others
  stay in the deadzone, and the ring is full at the end.
\<close>

definition tracking_run :: state where
  "tracking_run =
     the (run_ticks [(10, 2060), (20, 2062), (30, 2057), (40, 2061),
                     (50, 2058), (60, 2063), (70, 2059), (80, 2060)] tracking_on)"

text \<open>
  The operating range: a well-formed ring of 12-bit readings, the input range 4095 of
  line 22, a position range in (0, 50000] as line 304 admits, and a position within the
  largest half-range.
\<close>

definition in_range :: "state \<Rightarrow> bool" where
  "in_range s \<longleftrightarrow>
     ring_ok s \<and> (\<forall>x\<in>set (adc_buffer s). x \<le> 4095) \<and> adc_range s = 4095
     \<and> 0 < sint (position_range s) \<and> sint (position_range s) \<le> 50000
     \<and> \<bar>sint (adc_current_position s)\<bar> \<le> 25000"

text \<open>Every cell that has been written holds a value with the property \<open>P\<close>.\<close>

definition cells_ok :: "(u16 \<Rightarrow> bool) \<Rightarrow> u16 option list \<Rightarrow> bool" where
  "cells_ok P sb \<longleftrightarrow> (\<forall>c\<in>set sb. \<forall>v. c = Some v \<longrightarrow> P v)"

text \<open>
  The number a string of decimal digits denotes, and the maximal run of digits behind the
  two-character prefix of a command.
\<close>

definition digit_value :: "char \<Rightarrow> nat" where
  "digit_value c = of_char c - 48"

definition decimal_value :: "string \<Rightarrow> nat" where
  "decimal_value ds = foldl (\<lambda>n c. n * 10 + digit_value c) 0 ds"

definition digit_run :: "string \<Rightarrow> string" where
  "digit_run command = takeWhile is_digit (drop 2 command)"

text \<open>
  A sample rounding: to the nearest multiple of 1 / 4194304, the spacing of binary32 between 2
  and 4, with the multiples as the representable numbers.
\<close>

definition round_grid :: "real \<Rightarrow> real" where
  "round_grid x = of_int \<lfloor>x * 4194304 + 1 / 2\<rfloor> / 4194304"

definition grid :: "real set" where
  "grid = range (\<lambda>k :: int. of_int k / 4194304)"

section \<open>Reachable states\<close>

text \<open>
  The states the two entry points of \<^verbatim>\<open>manual_control_task\<close> can produce from the
  initial values of the statics, in any environment and for any command line.
\<close>

inductive reachable :: "state \<Rightarrow> bool" where
  init: "reachable initial_state"
| tick: "reachable s \<Longrightarrow> manual_adc_control_y e s = Some s' \<Longrightarrow> reachable s'"
| command: "reachable s \<Longrightarrow> process_manual_command e cmd s = Some s' \<Longrightarrow> reachable s'"

text \<open>The same in the environments of the running firmware.\<close>

inductive operating :: "state \<Rightarrow> bool" where
  init: "operating initial_state"
| tick: "operating s \<Longrightarrow> firmware_env e \<Longrightarrow> manual_adc_control_y e s = Some s' \<Longrightarrow> operating s'"
| command: "operating s \<Longrightarrow> process_manual_command e cmd s = Some s' \<Longrightarrow> operating s'"

section \<open>Frame lemmas\<close>

lemma emit_frame [simp]:
  "adc_control_active (emit evs s) = adc_control_active s"
  "adc_current_position (emit evs s) = adc_current_position s"
  "adc_target_position (emit evs s) = adc_target_position s"
  "adc_range (emit evs s) = adc_range s"
  "position_range (emit evs s) = position_range s"
  "last_adc_move (emit evs s) = last_adc_move s"
  "adc_buffer (emit evs s) = adc_buffer s"
  "adc_buffer_index (emit evs s) = adc_buffer_index s"
  "adc_buffer_filled (emit evs s) = adc_buffer_filled s"
  "update_counter (emit evs s) = update_counter s"
  "trace (emit evs s) = trace s @ evs"
  by (simp_all add: emit_def)

lemma move_loop_frame:
  "\<exists>t. move_loop step_pin steps i s = s\<lparr>trace := t\<rparr>"
proof (induction step_pin steps i s rule: move_loop.induct)
  case (1 step_pin steps i s)
  show ?case
  proof (cases "i < steps")
    case True
    let ?s1 = "emit ([WRITE step_pin HIGH, DELAY_US 500, WRITE step_pin LOW, DELAY_US 1500]
                 @ (if i mod 10 = 0 then [watchdog_refresh] else [])) s"
    have unfold: "move_loop step_pin steps i s = move_loop step_pin steps (i + 1) ?s1"
      using True by (subst move_loop.simps) simp
    from "1.IH" [OF True] obtain t where "move_loop step_pin steps (i + 1) ?s1 = ?s1\<lparr>trace := t\<rparr>"
      by blast
    then have "move_loop step_pin steps i s = s\<lparr>trace := t\<rparr>"
      using unfold by (simp add: emit_def)
    then show ?thesis ..
  next
    case False
    then have "move_loop step_pin steps i s = s"
      by (subst move_loop.simps) simp
    then have "move_loop step_pin steps i s = s\<lparr>trace := trace s\<rparr>"
      by simp
    then show ?thesis ..
  qed
qed

lemma manual_move_axis_frame:
  "\<exists>t. manual_move_axis step_pin dir_pin direction steps s = s\<lparr>trace := t\<rparr>"
proof -
  let ?s1 = "emit [WRITE X_ENABLE_PIN LOW,
                     WRITE dir_pin (if direction then HIGH else LOW),
                     DELAY_US 10,
                     SERIAL_ECHO (Text ''Moving ''),
                     SERIAL_ECHO (U16 steps),
                     SERIAL_ECHOLNPGM (if direction then '' steps forward'' else '' steps backward'')] s"
  obtain t where "move_loop step_pin steps 0 ?s1 = ?s1\<lparr>trace := t\<rparr>"
    using move_loop_frame by blast
  then have "manual_move_axis step_pin dir_pin direction steps s
               = s\<lparr>trace := t @ [SERIAL_ECHOLNPGM ''Move complete'']\<rparr>"
    by (simp add: manual_move_axis_def emit_def)
  then show ?thesis ..
qed

lemma jog_frame:
  assumes "jog command d step_pin dir_pin direction s = Some r"
  shows "statics r = statics s"
proof -
  from assms obtain steps where "r = manual_move_axis step_pin dir_pin direction steps s"
    by (auto simp: jog_def split: bind_splits)
  moreover obtain t where "manual_move_axis step_pin dir_pin direction steps s = s\<lparr>trace := t\<rparr>"
    using manual_move_axis_frame by blast
  ultimately show ?thesis
    by (simp add: statics_def)
qed

lemma jog_total:
  assumes "length (take 2 command) = 2"
  shows "\<exists>r. jog command d step_pin dir_pin direction s = Some r"
proof -
  from assms have "\<not> length command < 2"
    by auto
  then have "\<exists>steps. parse_steps command d = Some steps"
    by (simp add: parse_steps_def Let_def)
  then show ?thesis
    by (auto simp: jog_def)
qed

lemma process_manual_command_total:
  "\<exists>r. process_manual_command e command s = Some r"
  unfolding process_manual_command_def Let_def
  by (simp add: jog_total)

lemma statics_emit [simp]: "statics (emit evs s) = statics s"
  by (simp add: statics_def emit_def)

lemma adc_range_prefix:
  assumes "take 9 command = ''adc_range''"
  shows "take 2 command = ''ad''"
proof -
  have "take 2 command = take 2 (take 9 command)"
    by simp
  with assms show ?thesis
    by simp
qed

lemma process_manual_command_plain:
  assumes run: "process_manual_command e command s = Some r"
    and "command \<noteq> ''adc_on''" "command \<noteq> ''adc_off''" "command \<noteq> ''adc_zero''"
    and "take 9 command \<noteq> ''adc_range''"
  shows "statics r = statics s"
  using assms unfolding process_manual_command_def
  by (auto split: if_splits dest: jog_frame
        simp: manual_read_hotend_thermistor_def manual_read_bed_thermistor_def
        manual_enable_steppers_def manual_disable_steppers_def Let_def)

lemma process_manual_command_adc_range:
  assumes run: "process_manual_command e command s = Some r"
    and pre: "take 9 command = ''adc_range''"
  shows "statics r = statics (command_effect command s)"
proof -
  from pre have two: "take 2 command = ''ad''"
    by (rule adc_range_prefix)
  from pre have ne: "command \<noteq> ''h''" "command \<noteq> ''b''" "command \<noteq> ''on''" "command \<noteq> ''off''"
    "command \<noteq> ''adc_on''" "command \<noteq> ''adc_off''" "command \<noteq> ''adc_zero''"
    by auto
  show ?thesis
    using run pre two ne
    by (auto simp: process_manual_command_def command_effect_def Let_def statics_def emit_def
        split: if_splits)
qed

lemma process_manual_command_statics:
  assumes "process_manual_command e command s = Some r"
  shows "statics r = statics (command_effect command s)"
proof -
  consider (on) "command = ''adc_on''" | (off) "command = ''adc_off''"
    | (zero) "command = ''adc_zero''" | (range) "take 9 command = ''adc_range''"
    | (plain) "command \<noteq> ''adc_on''" "command \<noteq> ''adc_off''" "command \<noteq> ''adc_zero''"
        "take 9 command \<noteq> ''adc_range''"
    by blast
  then show ?thesis
  proof cases
    case on
    with assms show ?thesis
      by (auto simp: process_manual_command_def command_effect_def manual_enable_steppers_def
          statics_def emit_def)
  next
    case off
    with assms show ?thesis
      by (auto simp: process_manual_command_def command_effect_def statics_def emit_def)
  next
    case zero
    with assms show ?thesis
      by (auto simp: process_manual_command_def command_effect_def statics_def emit_def)
  next
    case range
    with assms show ?thesis
      by (rule process_manual_command_adc_range)
  next
    case plain
    with assms have "statics r = statics s"
      by (rule process_manual_command_plain)
    with plain show ?thesis
      by (simp add: command_effect_def)
  qed
qed

lemma process_manual_command_current_position:
  assumes "process_manual_command e command s = Some r"
  shows "adc_current_position r = (if command = ''adc_zero'' then 0 else adc_current_position s)"
proof -
  from assms have "statics r = statics (command_effect command s)"
    by (rule process_manual_command_statics)
  then have "adc_current_position (statics r) = adc_current_position (statics (command_effect command s))"
    by simp
  then show ?thesis
    by (simp add: statics_def command_effect_def)
qed

lemma process_manual_command_buffer:
  assumes "process_manual_command e command s = Some r"
  shows "adc_buffer r = adc_buffer s \<and> adc_buffer_index r = adc_buffer_index s
         \<and> adc_buffer_filled r = adc_buffer_filled s"
proof -
  from assms have eq: "statics r = statics (command_effect command s)"
    by (rule process_manual_command_statics)
  have "adc_buffer (statics r) = adc_buffer (statics (command_effect command s))"
    "adc_buffer_index (statics r) = adc_buffer_index (statics (command_effect command s))"
    "adc_buffer_filled (statics r) = adc_buffer_filled (statics (command_effect command s))"
    using eq by simp_all
  then show ?thesis
    by (simp add: statics_def command_effect_def)
qed

section \<open>Signed and unsigned words\<close>

lemma sint_i32_of_int:
  "- 2147483648 \<le> k \<Longrightarrow> k < 2147483648 \<Longrightarrow> sint (word_of_int k :: i32) = k"
  by (simp add: sint_sbintrunc' signed_take_bit_int_eq_self)

lemma sint_diff_i32:
  fixes a b :: i32
  assumes "- 2147483648 \<le> sint a - sint b" "sint a - sint b < 2147483648"
  shows "sint (a - b) = sint a - sint b"
proof -
  have "a - b = word_of_int (sint a - sint b)"
    by simp
  then show ?thesis
    using sint_i32_of_int [OF assms] by simp
qed

lemma sint_add_i32:
  fixes a :: i32
  assumes "- 2147483648 \<le> sint a + k" "sint a + k < 2147483648"
  shows "sint (a + word_of_int k) = sint a + k"
proof -
  have "a + word_of_int k = word_of_int (sint a + k)"
    by simp
  then show ?thesis
    using sint_i32_of_int [OF assms] by simp
qed

lemma sint_abs_i32:
  fixes x :: i32
  assumes "- 2147483648 < sint x"
  shows "sint (abs_i32 x) = \<bar>sint x\<bar>"
proof (cases "x <s 0")
  case True
  then have neg: "sint x < 0"
    by (simp add: word_sless_alt)
  have "- x = word_of_int (- sint x)"
    by simp
  moreover have "sint x < 2147483648"
    using sint_lt [of x] by simp
  ultimately have "sint (- x) = - sint x"
    using sint_i32_of_int [of "- sint x"] assms by simp
  with True neg show ?thesis
    by (simp add: abs_i32_def)
next
  case False
  then have "0 \<le> sint x"
    by (simp add: word_sless_alt)
  with False show ?thesis
    by (simp add: abs_i32_def)
qed

lemma unat_ucast_i32_u16:
  fixes y :: i32
  assumes "0 \<le> sint y" "sint y \<le> 65535"
  shows "unat (ucast y :: u16) = nat (sint y)"
proof -
  have "uint y = take_bit 32 (sint y)"
    using uint_sint [of y] by simp
  also have "\<dots> = sint y"
    using assms by (simp add: take_bit_int_eq_self)
  finally have y: "uint y = sint y" .
  have "uint (ucast y :: u16) = take_bit 16 (uint y)"
    using unsigned_ucast_eq [of y, where ?'c = 16 and ?'a = int] by simp
  also have "\<dots> = sint y"
    using assms y by (simp add: take_bit_int_eq_self)
  finally show ?thesis
    by (simp add: unat_eq_nat_uint)
qed

lemma unat_min: "unat (min a b) = min (unat a) (unat (b::'a::len word))"
  by (simp add: min_def word_le_nat_alt)

section \<open>The sample filter stays inside its arrays\<close>

lemma unat_succ_lt:
  fixes i n :: "'a::len word"
  assumes "unat i < unat n"
  shows "unat (i + 1) = Suc (unat i)"
proof -
  have "unat n < 2 ^ LENGTH('a)"
    by (rule unsigned_less)
  with assms have "unat i + 1 < 2 ^ LENGTH('a)"
    by linarith
  then show ?thesis
    by (simp add: unat_word_ariths)
qed

lemma push_sample_ok:
  assumes "ring_ok s"
  shows "\<exists>s1. push_sample raw_adc s = Some s1 \<and> ring_ok s1
           \<and> 1 \<le> unat (samples_to_use s1) \<and> unat (samples_to_use s1) \<le> ADC_SAMPLES
           \<and> s1 = s\<lparr>adc_buffer := adc_buffer s1, adc_buffer_index := adc_buffer_index s1,
                     adc_buffer_filled := adc_buffer_filled s1\<rparr>"
proof -
  let ?idx = "of_nat ((unat (adc_buffer_index s) + 1) mod ADC_SAMPLES) :: u8"
  have u: "unat ?idx = (unat (adc_buffer_index s) + 1) mod ADC_SAMPLES"
    by (simp add: unat_of_nat take_bit_nat_eq_self)
  then have lt: "unat ?idx < ADC_SAMPLES"
    by simp
  have nz: "?idx \<noteq> 0 \<Longrightarrow> 1 \<le> unat ?idx"
    by (metis One_nat_def Suc_leI unat_gt_0)
  from assms show ?thesis
    unfolding push_sample_def ring_ok_def samples_to_use_def array_set_def Let_def
    using lt nz by (auto simp del: of_nat_Suc of_nat_add)
qed

lemma written_upto_update:
  "written_upto sb m \<Longrightarrow> k < ADC_SAMPLES \<Longrightarrow> written_upto (sb[k := Some v]) m"
  by (auto simp: written_upto_def nth_list_update)

lemma written_upto_extend:
  "written_upto sb m \<Longrightarrow> m < ADC_SAMPLES \<Longrightarrow> written_upto (sb[m := Some v]) (Suc m)"
  by (auto simp: written_upto_def nth_list_update less_Suc_eq)

lemma scratch_get_written:
  "written_upto sb m \<Longrightarrow> k < m \<Longrightarrow> m \<le> ADC_SAMPLES \<Longrightarrow> \<exists>v. scratch_get sb k = Some v"
  by (auto simp: written_upto_def scratch_get_def)

lemma copy_loop_ok:
  assumes "length buf = ADC_SAMPLES" "written_upto sb (unat i)" "unat n \<le> ADC_SAMPLES" "i \<le> n"
  shows "\<exists>sb'. copy_loop buf sb n i = Some sb' \<and> written_upto sb' (unat n)"
  using assms
proof (induction buf sb n i rule: copy_loop.induct)
  case (1 buf sorted_buffer n i)
  show ?case
  proof (cases "i < n")
    case True
    then have lt: "unat i < unat n"
      by (simp add: word_less_nat_alt)
    then have suc: "unat (i + 1) = Suc (unat i)"
      by (rule unat_succ_lt)
    from lt "1.prems" have i8: "unat i < ADC_SAMPLES"
      by simp
    let ?v = "buf ! unat i"
    let ?sb = "sorted_buffer[unat i := Some ?v]"
    have get: "array_get buf (unat i) = Some ?v"
      using i8 "1.prems"(1) by (simp add: array_get_def)
    have set: "array_set sorted_buffer (unat i) (Some ?v) = Some ?sb"
      using i8 "1.prems"(2) by (simp add: array_set_def written_upto_def)
    have w: "written_upto ?sb (unat (i + 1))"
      using written_upto_extend [OF "1.prems"(2) i8] suc by simp
    have le: "i + 1 \<le> n"
      using lt suc by (simp add: word_le_nat_alt)
    have "\<exists>sb'. copy_loop buf ?sb n (i + 1) = Some sb' \<and> written_upto sb' (unat n)"
      using "1.IH" [OF True get set "1.prems"(1) w "1.prems"(3) le] .
    moreover have "copy_loop buf sorted_buffer n i = copy_loop buf ?sb n (i + 1)"
      using True get set by (subst copy_loop.simps) simp
    ultimately show ?thesis
      by simp
  next
    case False
    with "1.prems"(4) have "i = n"
      by simp
    moreover have "copy_loop buf sorted_buffer n i = Some sorted_buffer"
      using False by (subst copy_loop.simps) simp
    ultimately show ?thesis
      using "1.prems"(2) by simp
  qed
qed

lemma bubble_inner_ok:
  assumes "written_upto sb (unat n)" "unat n \<le> ADC_SAMPLES"
  shows "\<exists>sb'. bubble_inner sb n i j = Some sb' \<and> written_upto sb' (unat n)"
  using assms
proof (induction sb n i j rule: bubble_inner.induct)
  case (1 sorted_buffer n i j)
  show ?case
  proof (cases "int (unat j) < int (unat n) - int (unat i) - 1")
    case True
    then have lt: "Suc (unat j) < unat n"
      by linarith
    then have suc: "unat (j + 1) = Suc (unat j)"
      using unat_succ_lt [of j n] by simp
    from lt "1.prems" have j8: "unat j < ADC_SAMPLES" "unat j + 1 < ADC_SAMPLES"
      by simp_all
    obtain a where a: "scratch_get sorted_buffer (unat j) = Some a"
      using scratch_get_written [OF "1.prems"(1) _ "1.prems"(2), of "unat j"] lt by auto
    obtain b where b: "scratch_get sorted_buffer (unat j + 1) = Some b"
      using scratch_get_written [OF "1.prems"(1) _ "1.prems"(2), of "unat j + 1"] lt by auto
    let ?swap = "if a > b then
                  do {
                    t \<leftarrow> array_set sorted_buffer (unat j) (Some b);
                    array_set t (unat j + 1) (Some a)
                  }
                else Some sorted_buffer"
    let ?sb = "if a > b then sorted_buffer[unat j := Some b, unat j + 1 := Some a] else sorted_buffer"
    have len: "length sorted_buffer = ADC_SAMPLES"
      using "1.prems"(1) by (simp add: written_upto_def)
    have swap: "?swap = Some ?sb"
      using j8 len by (simp add: array_set_def)
    have w: "written_upto ?sb (unat n)"
      using "1.prems"(1) j8 by (simp add: written_upto_update)
    have "\<exists>sb'. bubble_inner ?sb n i (j + 1) = Some sb' \<and> written_upto sb' (unat n)"
      using "1.IH" [OF True a b swap w "1.prems"(2)] .
    moreover have "bubble_inner sorted_buffer n i j = bubble_inner ?sb n i (j + 1)"
      using True a b swap by (subst bubble_inner.simps) simp
    ultimately show ?thesis
      by simp
  next
    case False
    then have "bubble_inner sorted_buffer n i j = Some sorted_buffer"
      by (subst bubble_inner.simps) simp
    then show ?thesis
      using "1.prems"(1) by simp
  qed
qed

lemma bubble_outer_ok:
  assumes "written_upto sb (unat n)" "unat n \<le> ADC_SAMPLES"
  shows "\<exists>sb'. bubble_outer sb n i = Some sb' \<and> written_upto sb' (unat n)"
  using assms
proof (induction sb n i rule: bubble_outer.induct)
  case (1 sorted_buffer n i)
  show ?case
  proof (cases "int (unat i) < int (unat n) - 1")
    case True
    obtain sb where sb: "bubble_inner sorted_buffer n i 0 = Some sb" "written_upto sb (unat n)"
      using bubble_inner_ok [OF "1.prems"] by blast
    have "\<exists>sb'. bubble_outer sb n (i + 1) = Some sb' \<and> written_upto sb' (unat n)"
      using "1.IH" [OF True sb(1) sb(2) "1.prems"(2)] .
    moreover have "bubble_outer sorted_buffer n i = bubble_outer sb n (i + 1)"
      using True sb(1) by (subst bubble_outer.simps) simp
    ultimately show ?thesis
      by simp
  next
    case False
    then have "bubble_outer sorted_buffer n i = Some sorted_buffer"
      by (subst bubble_outer.simps) simp
    then show ?thesis
      using "1.prems"(1) by simp
  qed
qed

lemma filtered_value_ok:
  assumes "ring_ok s" "1 \<le> unat (samples_to_use s)" "unat (samples_to_use s) \<le> ADC_SAMPLES"
  shows "\<exists>v. filtered_value s = Some v"
proof -
  let ?n = "samples_to_use s"
  have w0: "written_upto (replicate ADC_SAMPLES None) (unat (0 :: u8))"
    by (simp add: written_upto_def)
  from assms(1) have len: "length (adc_buffer s) = ADC_SAMPLES"
    by (simp add: ring_ok_def)
  obtain sb0 where sb0: "copy_loop (adc_buffer s) (replicate ADC_SAMPLES None) ?n 0 = Some sb0"
      "written_upto sb0 (unat ?n)"
    using copy_loop_ok [OF len w0 assms(3)] by auto
  obtain sb1 where sb1: "bubble_outer sb0 ?n 0 = Some sb1" "written_upto sb1 (unat ?n)"
    using bubble_outer_ok [OF sb0(2) assms(3)] by blast
  have "unat ?n div 2 < unat ?n"
    using assms(2) by simp
  then obtain v where "scratch_get sb1 (unat ?n div 2) = Some v"
    using scratch_get_written [OF sb1(2) _ assms(3)] by blast
  with sb0(1) sb1(1) show ?thesis
    by (simp add: filtered_value_def)
qed

section \<open>One tick of the tracker\<close>

lemma step_loop_result:
  "step_loop direction n i s =
     s\<lparr>adc_current_position :=
         adc_current_position s + (if direction then 1 else - 1) * of_nat (unat n - unat i),
       trace := trace (step_loop direction n i s)\<rparr>
   \<and> pulses (trace (step_loop direction n i s)) = pulses (trace s) + (unat n - unat i)"
proof (induction direction n i s rule: step_loop.induct)
  case (1 direction n i s)
  show ?case
  proof (cases "i < n")
    case True
    then have lt: "unat i < unat n"
      by (simp add: word_less_nat_alt)
    then have suc: "unat (i + 1) = Suc (unat i)"
      by (rule unat_succ_lt)
    let ?s1 = "emit (if i mod 5 = 0 then [watchdog_refresh] else [])
             ((emit [WRITE Y_STEP_PIN HIGH, DELAY_US 500, WRITE Y_STEP_PIN LOW, DELAY_US 500] s)
                \<lparr>adc_current_position := adc_current_position s + (if direction then 1 else - 1)\<rparr>)"
    have unfold: "step_loop direction n i s = step_loop direction n (i + 1) ?s1"
      using True by (subst step_loop.simps) simp
    have k: "unat n - unat i = Suc (unat n - unat (i + 1))"
      using lt suc by simp
    note IH = "1.IH" [OF True]
    have pos: "adc_current_position ?s1 = adc_current_position s + (if direction then 1 else - 1)"
      by simp
    have p1: "pulses (trace ?s1) = Suc (pulses (trace s))"
      by (simp add: pulses_def)
    have "step_loop direction n i s =
        ?s1\<lparr>adc_current_position :=
         adc_current_position ?s1 + (if direction then 1 else - 1) * of_nat (unat n - unat (i + 1)),
         trace := trace (step_loop direction n i s)\<rparr>"
      using IH unfold by simp
    also have "\<dots> = s\<lparr>adc_current_position :=
         adc_current_position s + (if direction then 1 else - 1) * of_nat (unat n - unat i),
         trace := trace (step_loop direction n i s)\<rparr>"
      unfolding k by (simp add: emit_def algebra_simps)
    finally have a: "step_loop direction n i s = s\<lparr>adc_current_position :=
         adc_current_position s + (if direction then 1 else - 1) * of_nat (unat n - unat i),
         trace := trace (step_loop direction n i s)\<rparr>" .
    have b: "pulses (trace (step_loop direction n i s)) = pulses (trace s) + (unat n - unat i)"
      using IH unfold p1 k by simp
    from a b show ?thesis
      by blast
  next
    case False
    then have "\<not> unat i < unat n"
      by (simp add: word_less_nat_alt)
    then have z: "unat n - unat i = 0"
      by simp
    have "step_loop direction n i s = s"
      using False by (subst step_loop.simps) simp
    then show ?thesis
      unfolding z by simp
  qed
qed

lemma corrective_move_result:
  fixes now raw_adc adcValue position_error s
  defines "k \<equiv> unat (min (ucast (abs_i32 position_error) :: u16) 10)"
  defines "r \<equiv> corrective_move now raw_adc adcValue position_error s"
  shows "adc_current_position r =
           adc_current_position s + (if 0 <s position_error then 1 else - 1) * of_nat k"
    and "pulses (trace r) = pulses (trace s) + k"
    and "adc_target_position r = adc_target_position s"
    and "adc_buffer r = adc_buffer s"
    and "adc_buffer_index r = adc_buffer_index s"
    and "adc_buffer_filled r = adc_buffer_filled s"
    and "adc_control_active r = adc_control_active s"
proof -
  let ?d = "0 <s position_error"
  let ?n = "min (ucast (abs_i32 position_error) :: u16) 10"
  let ?s2 = "emit [WRITE Y_DIR_PIN (if ?d then HIGH else LOW), DELAY_US 10]
               (emit [WRITE X_ENABLE_PIN LOW] s)"
  let ?s3 = "step_loop ?d ?n 0 ?s2"
  have s3: "?s3 = ?s2\<lparr>adc_current_position :=
               adc_current_position ?s2 + (if ?d then 1 else - 1) * of_nat (unat ?n - unat (0 :: u16)),
               trace := trace ?s3\<rparr>"
    and p3: "pulses (trace ?s3) = pulses (trace ?s2) + (unat ?n - unat (0 :: u16))"
    using step_loop_result [of ?d ?n 0 ?s2] by blast+
  have p2: "pulses (trace ?s2) = pulses (trace s)"
    by (simp add: pulses_def)
  have fields: "adc_current_position ?s3 = adc_current_position s + (if ?d then 1 else - 1) * of_nat k"
    "adc_target_position ?s3 = adc_target_position s"
    "adc_buffer ?s3 = adc_buffer s"
    "adc_buffer_index ?s3 = adc_buffer_index s"
    "adc_buffer_filled ?s3 = adc_buffer_filled s"
    "adc_control_active ?s3 = adc_control_active s"
    by (subst s3, simp add: k_def)+
  have pk: "pulses (trace ?s3) = pulses (trace s) + k"
    using p3 p2 by (simp add: k_def)
  have r: "r = (let s4 = ?s3\<lparr>last_adc_move := now\<rparr>; c = update_counter s4 + 1
      in if 25 \<le> c then
           emit [SERIAL_ECHO (Text ''ADC Position Control - Raw: ''),
                 SERIAL_ECHO (U16 raw_adc),
                 SERIAL_ECHO (Text '', Median: ''),
                 SERIAL_ECHO (U16 adcValue),
                 SERIAL_ECHO (Text '', Target: ''),
                 SERIAL_ECHO (I32 (adc_target_position s4)),
                 SERIAL_ECHO (Text '', Current: ''),
                 SERIAL_ECHO (I32 (adc_current_position s4)),
                 SERIAL_ECHO (Text '', Error: ''),
                 SERIAL_ECHOLN (I32 position_error)]
             (s4\<lparr>update_counter := 0\<rparr>)
         else s4\<lparr>update_counter := c\<rparr>)"
    unfolding r_def corrective_move_def Let_def ..
  show "adc_current_position r =
           adc_current_position s + (if 0 <s position_error then 1 else - 1) * of_nat k"
    unfolding r Let_def using fields(1) by simp
  show "pulses (trace r) = pulses (trace s) + k"
    unfolding r Let_def using pk by (simp add: pulses_def)
  show "adc_target_position r = adc_target_position s"
    unfolding r Let_def using fields(2) by simp
  show "adc_buffer r = adc_buffer s"
    unfolding r Let_def using fields(3) by simp
  show "adc_buffer_index r = adc_buffer_index s"
    unfolding r Let_def using fields(4) by simp
  show "adc_buffer_filled r = adc_buffer_filled s"
    unfolding r Let_def using fields(5) by simp
  show "adc_control_active r = adc_control_active s"
    unfolding r Let_def using fields(6) by simp
qed

lemma deadzone_word:
  fixes T C :: i32
  assumes "\<bar>sint T - sint C\<bar> \<le> 5"
  shows "\<not> 5 <s abs_i32 (T - C)"
proof -
  from assms have d: "sint (T - C) = sint T - sint C"
    by (intro sint_diff_i32) linarith+
  with assms have "sint (abs_i32 (T - C)) = \<bar>sint T - sint C\<bar>"
    using sint_abs_i32 [of "T - C"] by simp
  with assms show ?thesis
    by (simp add: word_sless_alt)
qed

lemma rate_limit_word:
  fixes T C :: i32
  assumes big: "5 < \<bar>sint T - sint C\<bar>" and fits: "\<bar>sint T - sint C\<bar> \<le> 65535"
  defines "k \<equiv> unat (min (ucast (abs_i32 (T - C)) :: u16) 10)"
  defines "C' \<equiv> C + (if 0 <s T - C then 1 else - 1) * of_nat k"
  shows "5 <s abs_i32 (T - C)"
    and "int k = min \<bar>sint T - sint C\<bar> 10"
    and "sint C' = sint C + (if sint C < sint T then int k else - int k)"
proof -
  from fits have d: "sint (T - C) = sint T - sint C"
    by (intro sint_diff_i32) linarith+
  with fits have ab: "sint (abs_i32 (T - C)) = \<bar>sint T - sint C\<bar>"
    using sint_abs_i32 [of "T - C"] by simp
  with big show "5 <s abs_i32 (T - C)"
    by (simp add: word_sless_alt)
  have "unat (ucast (abs_i32 (T - C)) :: u16) = nat \<bar>sint T - sint C\<bar>"
    using unat_ucast_i32_u16 [of "abs_i32 (T - C)"] ab fits by simp
  then have kn: "k = min (nat \<bar>sint T - sint C\<bar>) 10"
    by (simp add: k_def unat_min)
  then show k: "int k = min \<bar>sint T - sint C\<bar> 10"
    by simp
  have dir: "0 <s T - C \<longleftrightarrow> sint C < sint T"
    using d by (simp add: word_sless_alt)
  have rng: "- 2147483648 \<le> sint T" "sint T < 2147483648"
    "- 2147483648 \<le> sint C" "sint C < 2147483648"
    using sint_ge [of T] sint_lt [of T] sint_ge [of C] sint_lt [of C] by simp_all
  show "sint C' = sint C + (if sint C < sint T then int k else - int k)"
  proof (cases "sint C < sint T")
    case True
    have "C' = C + word_of_int (int k)"
      using True dir by (simp add: C'_def)
    moreover have "sint (C + word_of_int (int k)) = sint C + int k"
      using True k rng by (intro sint_add_i32) linarith+
    ultimately show ?thesis
      using True by simp
  next
    case False
    have "C' = C + word_of_int (- int k)"
      using False dir by (simp add: C'_def)
    moreover have "sint (C + word_of_int (- int k)) = sint C + (- int k)"
      using False k rng big by (intro sint_add_i32) linarith+
    ultimately show ?thesis
      using False by simp
  qed
qed

lemma manual_adc_control_y_run:
  assumes "ring_ok s" "adc_control_active s" "\<not> millis e - last_adc_move s < 10"
  shows "\<exists>s1 v. push_sample (analogRead e TEMP_BED_PIN) s = Some s1 \<and> ring_ok s1
           \<and> filtered_value s1 = Some v
           \<and> s1 = s\<lparr>adc_buffer := adc_buffer s1, adc_buffer_index := adc_buffer_index s1,
                     adc_buffer_filled := adc_buffer_filled s1\<rparr>
           \<and> manual_adc_control_y e s =
               Some (let s2 = s1\<lparr>adc_target_position :=
                                   map_fn e (ucast v) 0 (ucast (adc_range s1))
                                     (sdiv32 (- position_range s1) 2) (sdiv32 (position_range s1) 2)\<rparr>;
                         position_error = adc_target_position s2 - adc_current_position s2
                     in if 5 <s abs_i32 position_error
                        then corrective_move (millis e) (analogRead e TEMP_BED_PIN) v position_error s2
                        else s2)"
proof -
  obtain s1 where s1: "push_sample (analogRead e TEMP_BED_PIN) s = Some s1" "ring_ok s1"
    "1 \<le> unat (samples_to_use s1)" "unat (samples_to_use s1) \<le> ADC_SAMPLES"
    "s1 = s\<lparr>adc_buffer := adc_buffer s1, adc_buffer_index := adc_buffer_index s1,
                     adc_buffer_filled := adc_buffer_filled s1\<rparr>"
    using push_sample_ok [OF assms(1)] by blast
  obtain v where v: "filtered_value s1 = Some v"
    using filtered_value_ok [OF s1(2,3,4)] by blast
  have "manual_adc_control_y e s =
               Some (let s2 = s1\<lparr>adc_target_position :=
                                   map_fn e (ucast v) 0 (ucast (adc_range s1))
                                     (sdiv32 (- position_range s1) 2) (sdiv32 (position_range s1) 2)\<rparr>;
                         position_error = adc_target_position s2 - adc_current_position s2
                     in if 5 <s abs_i32 position_error
                        then corrective_move (millis e) (analogRead e TEMP_BED_PIN) v position_error s2
                        else s2)"
    using assms(2,3) s1(1) v by (simp add: manual_adc_control_y_def Let_def)
  with s1 v show ?thesis
    by blast
qed

lemma push_sample_frame:
  assumes "push_sample raw_adc s = Some s1"
  shows "adc_current_position s1 = adc_current_position s" "trace s1 = trace s"
    "adc_control_active s1 = adc_control_active s"
  using assms by (auto simp: push_sample_def Let_def split: bind_splits)

lemma manual_adc_control_y_steps:
  assumes "manual_adc_control_y e s = Some s'"
  shows "\<exists>k\<le>10. pulses (trace s') = pulses (trace s) + k
           \<and> (adc_current_position s' = adc_current_position s + of_nat k
               \<or> adc_current_position s' = adc_current_position s - of_nat k)"
proof (cases "adc_control_active s \<and> \<not> millis e - last_adc_move s < 10")
  case False
  with assms have "s' = s"
    by (auto simp: manual_adc_control_y_def Let_def split: if_splits)
  then show ?thesis
    by (intro exI [of _ 0]) simp
next
  case True
  with assms obtain s1 v where s1: "push_sample (analogRead e TEMP_BED_PIN) s = Some s1"
    and s': "s' = (let s2 = s1\<lparr>adc_target_position :=
                                   map_fn e (ucast v) 0 (ucast (adc_range s1))
                                     (sdiv32 (- position_range s1) 2) (sdiv32 (position_range s1) 2)\<rparr>;
                         position_error = adc_target_position s2 - adc_current_position s2
                     in if 5 <s abs_i32 position_error
                        then corrective_move (millis e) (analogRead e TEMP_BED_PIN) v position_error s2
                        else s2)"
    by (auto simp: manual_adc_control_y_def Let_def split: bind_splits)
  define T where "T = map_fn e (ucast v) 0 (ucast (adc_range s1))
                        (sdiv32 (- position_range s1) 2) (sdiv32 (position_range s1) 2)"
  define s2 where "s2 = s1\<lparr>adc_target_position := T\<rparr>"
  define err where "err = T - adc_current_position s1"
  define k where "k = unat (min (ucast (abs_i32 err) :: u16) 10)"
  have k10: "k \<le> 10"
    by (simp add: k_def unat_min)
  have fr: "adc_current_position s2 = adc_current_position s" "trace s2 = trace s"
    using push_sample_frame [OF s1] by (simp_all add: s2_def)
  have s'eq: "s' = (if 5 <s abs_i32 err
                    then corrective_move (millis e) (analogRead e TEMP_BED_PIN) v err s2 else s2)"
    using s' by (simp add: Let_def s2_def T_def err_def)
  show ?thesis
  proof (cases "5 <s abs_i32 err")
    case False
    with s'eq fr show ?thesis
      by (intro exI [of _ 0]) simp
  next
    case True
    then have "s' = corrective_move (millis e) (analogRead e TEMP_BED_PIN) v err s2"
      using s'eq by simp
    then have "pulses (trace s') = pulses (trace s) + k"
      and "adc_current_position s' = adc_current_position s + (if 0 <s err then 1 else - 1) * of_nat k"
      using fr by (simp_all add: corrective_move_result k_def)
    with k10 show ?thesis
      by (intro exI [of _ k]) auto
  qed
qed

lemma corrective_move_config:
  "adc_range (corrective_move now raw_adc adcValue position_error s) = adc_range s"
  "position_range (corrective_move now raw_adc adcValue position_error s) = position_range s"
proof -
  let ?d = "0 <s position_error"
  let ?n = "min (ucast (abs_i32 position_error) :: u16) 10"
  let ?s2 = "emit [WRITE Y_DIR_PIN (if ?d then HIGH else LOW), DELAY_US 10]
               (emit [WRITE X_ENABLE_PIN LOW] s)"
  let ?s3 = "step_loop ?d ?n 0 ?s2"
  have s3: "?s3 = ?s2\<lparr>adc_current_position :=
               adc_current_position ?s2 + (if ?d then 1 else - 1) * of_nat (unat ?n - unat (0 :: u16)),
               trace := trace ?s3\<rparr>"
    using step_loop_result [of ?d ?n 0 ?s2] by blast
  have fields: "adc_range ?s3 = adc_range s" "position_range ?s3 = position_range s"
    by (subst s3, simp)+
  show "adc_range (corrective_move now raw_adc adcValue position_error s) = adc_range s"
    unfolding corrective_move_def Let_def using fields(1) by simp
  show "position_range (corrective_move now raw_adc adcValue position_error s) = position_range s"
    unfolding corrective_move_def Let_def using fields(2) by simp
qed

lemma push_sample_set:
  assumes "push_sample raw_adc s = Some s1"
  shows "set (adc_buffer s1) \<subseteq> insert raw_adc (set (adc_buffer s))"
proof -
  from assms have "adc_buffer s1 = (adc_buffer s)[unat (adc_buffer_index s) := raw_adc]"
    by (auto simp: push_sample_def array_set_def Let_def split: bind_splits if_splits)
  then show ?thesis
    by (simp add: set_update_subset_insert)
qed

section \<open>Every reachable state has a well-formed ring\<close>

lemma ring_ok_initial: "ring_ok initial_state"
  by (simp add: ring_ok_def initial_state_def)

lemma manual_adc_control_y_ring_ok:
  assumes "ring_ok s" "manual_adc_control_y e s = Some s'"
  shows "ring_ok s'"
proof (cases "adc_control_active s \<and> \<not> millis e - last_adc_move s < 10")
  case False
  with assms(2) have "s' = s"
    by (auto simp: manual_adc_control_y_def Let_def split: if_splits)
  with assms(1) show ?thesis
    by simp
next
  case True
  then obtain s1 v where s1: "ring_ok s1"
    and run: "manual_adc_control_y e s =
               Some (let s2 = s1\<lparr>adc_target_position :=
                                   map_fn e (ucast v) 0 (ucast (adc_range s1))
                                     (sdiv32 (- position_range s1) 2) (sdiv32 (position_range s1) 2)\<rparr>;
                         position_error = adc_target_position s2 - adc_current_position s2
                     in if 5 <s abs_i32 position_error
                        then corrective_move (millis e) (analogRead e TEMP_BED_PIN) v position_error s2
                        else s2)"
    using manual_adc_control_y_run [OF assms(1), of e] by blast
  from run assms(2) s1 show ?thesis
    by (auto simp: Let_def ring_ok_def corrective_move_result split: if_splits)
qed

lemma reachable_ring_ok: "reachable s \<Longrightarrow> ring_ok s"
proof (induction rule: reachable.induct)
  case init
  show ?case by (rule ring_ok_initial)
next
  case (tick s e s')
  then show ?case by (blast intro: manual_adc_control_y_ring_ok)
next
  case (command s e cmd s')
  then show ?case
    using process_manual_command_buffer [of e cmd s s'] by (simp add: ring_ok_def)
qed

lemma tracking_on_run:
  "process_manual_command env_full_scale ''adc_on'' initial_state = Some tracking_on"
  using process_manual_command_total [of env_full_scale "''adc_on''" initial_state]
  by (auto simp: tracking_on_def)

lemma reachable_tracking_on: "reachable tracking_on"
  using reachable.command [OF reachable.init tracking_on_run] .

lemma ring_ok_tracking_on: "ring_ok tracking_on"
  using reachable_tracking_on by (rule reachable_ring_ok)

lemma tracking_on_facts:
  "adc_control_active tracking_on"
  "adc_current_position tracking_on = 0"
  "last_adc_move tracking_on = 0"
  by code_simp+

lemma tracking_step_run:
  "manual_adc_control_y env_full_scale tracking_on = Some tracking_step"
  "adc_current_position tracking_step = 10"
  "pulses (trace tracking_on) = 0"
  "pulses (trace tracking_step) = 10"
  by code_simp+

lemma reachable_run_ticks:
  "reachable s \<Longrightarrow> run_ticks trs s = Some s' \<Longrightarrow> reachable s'"
proof (induction trs arbitrary: s)
  case Nil
  then show ?case by simp
next
  case (Cons tr trs)
  obtain t r where tr: "tr = (t, r)"
    by (cases tr)
  from Cons.prems(2) obtain s1 where s1: "manual_adc_control_y (env_at t r) s = Some s1"
    and rest: "run_ticks trs s1 = Some s'"
    by (auto simp: tr split: bind_splits)
  from Cons.prems(1) s1 have "reachable s1"
    by (rule reachable.tick)
  then show ?case
    using rest by (rule Cons.IH)
qed

lemma tracking_run_fields:
  "map_option (\<lambda>s. (adc_control_active s, last_adc_move s, adc_buffer s, adc_buffer_index s,
                      adc_buffer_filled s, adc_current_position s))
     (run_ticks [(10, 2060), (20, 2062), (30, 2057), (40, 2061),
                 (50, 2058), (60, 2063), (70, 2059), (80, 2060)] tracking_on)
   = Some (True, 20, [2060, 2062, 2057, 2061, 2058, 2063, 2059, 2060], 0, True, 20)"
  by code_simp

lemma tracking_run_run:
  "run_ticks [(10, 2060), (20, 2062), (30, 2057), (40, 2061),
              (50, 2058), (60, 2063), (70, 2059), (80, 2060)] tracking_on = Some tracking_run"
  using tracking_run_fields by (auto simp: tracking_run_def simp del: run_ticks.simps)

lemma reachable_tracking_run: "reachable tracking_run"
  using reachable_tracking_on tracking_run_run by (rule reachable_run_ticks)

lemma tracking_run_facts:
  "adc_control_active tracking_run"
  "last_adc_move tracking_run = 20"
  "adc_buffer tracking_run = [2060, 2062, 2057, 2061, 2058, 2063, 2059, 2060]"
  "adc_buffer_index tracking_run = 0"
  "adc_buffer_filled tracking_run"
  "adc_current_position tracking_run = 20"
  using tracking_run_fields [unfolded tracking_run_run] by simp_all

section \<open>The numeric suffix\<close>

lemma parse_digits_takeWhile:
  "parse_digits (takeWhile is_digit cs) acc = parse_digits cs acc"
  by (induction cs arbitrary: acc) simp_all

lemma parse_digits_stop:
  "\<not> is_digit c \<Longrightarrow> parse_digits (ds @ c # rest) acc = parse_digits ds acc"
  by (induction ds arbitrary: acc) simp_all

lemma parse_digits_nondigit_head:
  "cs \<noteq> [] \<Longrightarrow> takeWhile is_digit cs = [] \<Longrightarrow> parse_digits cs acc = acc"
  by (cases cs) (auto split: if_splits)

lemma parse_digits_foldl:
  "parse_digits cs (of_nat a :: 'a::len word)
     = of_nat (foldl (\<lambda>n c. n * 10 + digit_value c) a (takeWhile is_digit cs))"
proof (induction cs arbitrary: a)
  case Nil
  show ?case by simp
next
  case (Cons c cs)
  have "(of_nat a :: 'a word) * 10 + of_nat (of_char c - 48) = of_nat (a * 10 + digit_value c)"
    by (simp add: digit_value_def)
  then show ?case
    using Cons.IH [of "a * 10 + digit_value c"] by simp
qed

lemma parse_digits_decimal:
  "(parse_digits cs 0 :: 'a::len word) = of_nat (decimal_value (takeWhile is_digit cs))"
  using parse_digits_foldl [of cs 0, where ?'a = 'a] by (simp add: decimal_value_def)

lemma parse_steps_value:
  assumes "2 \<le> length command"
  shows "parse_steps command d =
           Some (let n = decimal_value (digit_run command) mod 65536
                 in if 0 < n \<and> n \<le> 10000 then of_nat n else d)"
proof -
  let ?n = "decimal_value (digit_run command)"
  have steps: "(parse_digits (drop 2 command) 0 :: u16) = of_nat ?n"
    by (simp add: parse_digits_decimal digit_run_def)
  have un: "unat (of_nat ?n :: u16) = ?n mod 65536"
    by (simp add: unat_of_nat)
  have pos: "0 < (of_nat ?n :: u16) \<longleftrightarrow> 0 < ?n mod 65536"
    using un by (simp add: word_less_nat_alt)
  have le: "(of_nat ?n :: u16) \<le> 10000 \<longleftrightarrow> ?n mod 65536 \<le> 10000"
    using un by (simp add: word_le_nat_alt)
  have val: "(of_nat (?n mod 65536) :: u16) = of_nat ?n"
    by (simp add: word_of_nat_eq_iff take_bit_eq_mod)
  show ?thesis
  proof (cases "drop 2 command = []")
    case True
    then have "?n = 0"
      by (simp add: digit_run_def decimal_value_def)
    with True assms show ?thesis
      by (simp add: parse_steps_def)
  next
    case False
    with assms show ?thesis
      by (simp add: parse_steps_def Let_def steps pos le val)
  qed
qed

text \<open>
  C10: \<^verbatim>\<open>parse_steps\<close> reads the maximal run of decimal digits behind the two-character
  prefix and nothing behind it: the result is the number the run denotes, as far as it
  fits the 16-bit accumulator, when that lies in (0, 10000], and the default otherwise.
  So a suffix that starts with a non-digit gives the default, and characters behind the
  run do not change the result.
\<close>

theorem parse_steps_reads_the_digit_run:
  "(2 \<le> length command \<longrightarrow>
      parse_steps command d =
        Some (let n = decimal_value (digit_run command) mod 65536
              in if 0 < n \<and> n \<le> 10000 then of_nat n else d))
   \<and> (2 \<le> length command \<and> 0 < decimal_value (digit_run command)
        \<and> decimal_value (digit_run command) \<le> 10000 \<longrightarrow>
      parse_steps command d = Some (of_nat (decimal_value (digit_run command))))
   \<and> parse_steps command d = parse_steps (take 2 command @ digit_run command) d
   \<and> (length p = 2 \<and> \<not> is_digit c \<longrightarrow> parse_steps (p @ c # rest) d = Some d)
   \<and> (length p = 2 \<and> \<not> is_digit c \<longrightarrow>
        parse_steps (p @ ds @ c # rest) d = parse_steps (p @ ds) d)
   \<and> parse_steps ''x+abc'' d = Some d
   \<and> parse_steps ''x+50abc'' d = Some 50
   \<and> parse_steps ''x+50'' d = Some 50
   \<and> parse_steps ''x+7'' d = Some 7
   \<and> parse_steps ''y-250'' d = Some 250"
proof (intro conjI impI)
  assume "2 \<le> length command"
  then show "parse_steps command d =
        Some (let n = decimal_value (digit_run command) mod 65536
              in if 0 < n \<and> n \<le> 10000 then of_nat n else d)"
    by (rule parse_steps_value)
next
  assume a: "2 \<le> length command \<and> 0 < decimal_value (digit_run command)
        \<and> decimal_value (digit_run command) \<le> 10000"
  then have "decimal_value (digit_run command) mod 65536 = decimal_value (digit_run command)"
    by simp
  with a show "parse_steps command d = Some (of_nat (decimal_value (digit_run command)))"
    using parse_steps_value [of command d] by (simp add: Let_def)
next
  show "parse_steps command d = parse_steps (take 2 command @ digit_run command) d"
  proof (cases "length command < 2")
    case True
    then show ?thesis by (simp add: digit_run_def)
  next
    case False
    then have len: "length (take 2 command) = 2"
      by simp
    show ?thesis
    proof (cases "takeWhile is_digit (drop 2 command) = []")
      case True
      then show ?thesis
        using False len parse_digits_nondigit_head [of "drop 2 command" "0 :: u16"]
        by (auto simp: parse_steps_def Let_def digit_run_def)
    next
      case False
      then have "drop 2 command \<noteq> []"
        by auto
      with False \<open>\<not> length command < 2\<close> len show ?thesis
        by (simp add: parse_steps_def Let_def parse_digits_takeWhile digit_run_def)
    qed
  qed
next
  assume "length p = 2 \<and> \<not> is_digit c"
  then show "parse_steps (p @ c # rest) d = Some d"
    by (simp add: parse_steps_def)
next
  assume a: "length p = 2 \<and> \<not> is_digit c"
  then have "parse_digits (ds @ c # rest) (0 :: u16) = parse_digits ds 0"
    by (simp add: parse_digits_stop)
  with a show "parse_steps (p @ ds @ c # rest) d = parse_steps (p @ ds) d"
    by (cases ds) (simp_all add: parse_steps_def Let_def)
next
  show "parse_steps ''x+abc'' d = Some d"
    by (simp add: parse_steps_def is_digit_def)
next
  show "parse_steps ''x+50abc'' d = Some 50"
    by (simp add: parse_steps_def is_digit_def)
next
  show "parse_steps ''x+50'' d = Some 50"
    by (simp add: parse_steps_def is_digit_def)
next
  show "parse_steps ''x+7'' d = Some 7"
    by (simp add: parse_steps_def is_digit_def)
next
  show "parse_steps ''y-250'' d = Some 250"
    by (simp add: parse_steps_def is_digit_def)
qed

lemma digit_run_example: "digit_run ''y-250mm'' = ''250''" "decimal_value ''250'' = 250"
  by (simp_all add: digit_run_def is_digit_def decimal_value_def digit_value_def)

theorem parse_steps_reads_the_digit_run_witness:
  "2 \<le> length ''y-250mm'' \<and> digit_run ''y-250mm'' = ''250''
   \<and> 0 < decimal_value ''250'' \<and> decimal_value ''250'' \<le> 10000
   \<and> parse_steps ''y-250mm'' 100 = Some 250
   \<and> length ''y-'' = 2 \<and> \<not> is_digit CHR ''m''
   \<and> parse_steps ''y-mm'' 100 = Some 100
   \<and> parse_steps ''y-250mm'' 100 = parse_steps ''y-250'' 100"
  using parse_steps_reads_the_digit_run [of "''y-250mm''" 100 "''y-''" "CHR ''m''" "''m''" "''250''"]
    digit_run_example
  by (simp add: is_digit_def)

text \<open>
  C3: the accumulator of \<^verbatim>\<open>parse_steps\<close> is a \<^verbatim>\<open>uint16_t\<close>. The suffix 65537 is above
  10000, and the result is not the default 100 but 1, the value modulo 65536.
\<close>

theorem parse_steps_wraps_at_65536:
  "parse_steps ''x+65537'' 100 = Some 1"
  by (simp add: parse_steps_def is_digit_def)

section \<open>Commands and the tracking state\<close>

text \<open>
  C1, as stated, fails: in the sample run tracking is off again and the position is 10;
  the command \<^verbatim>\<open>adc_zero\<close> then sets it to 0.
\<close>

theorem adc_zero_mutates_while_inactive:
  "map_option adc_control_active after_tracking = Some False
   \<and> map_option adc_current_position after_tracking = Some 10
   \<and> map_option adc_current_position
        (after_tracking \<bind> process_manual_command env_full_scale ''adc_zero'') = Some 0"
  by code_simp

text \<open>
  C1, amended: \<^verbatim>\<open>adc_current_position\<close> is changed by the command \<^verbatim>\<open>adc_zero\<close>, which
  sets it to 0 whether tracking is active or not, and by no other command. A tick with
  tracking inactive leaves the whole state as it is. A tick changes the position by its
  corrective stepping only: by one unit per step pulse it issues, at most 10, all in one
  direction; and a tick that changes the position runs with tracking active and past the
  rate gate.
\<close>

theorem current_position_mutators:
  "(\<exists>r. process_manual_command e command s = Some r
        \<and> adc_current_position r = (if command = ''adc_zero'' then 0 else adc_current_position s))
   \<and> (\<not> adc_control_active s \<longrightarrow> manual_adc_control_y e s = Some s)
   \<and> (manual_adc_control_y e s = Some s' \<longrightarrow>
        (\<exists>k\<le>10. pulses (trace s') = pulses (trace s) + k
           \<and> (adc_current_position s' = adc_current_position s + of_nat k
               \<or> adc_current_position s' = adc_current_position s - of_nat k))
        \<and> (adc_current_position s' \<noteq> adc_current_position s
             \<longrightarrow> adc_control_active s \<and> \<not> millis e - last_adc_move s < 10))"
proof (intro conjI impI)
  obtain r where r: "process_manual_command e command s = Some r"
    using process_manual_command_total by blast
  then have "adc_current_position r = (if command = ''adc_zero'' then 0 else adc_current_position s)"
    by (rule process_manual_command_current_position)
  with r show "\<exists>r. process_manual_command e command s = Some r
        \<and> adc_current_position r = (if command = ''adc_zero'' then 0 else adc_current_position s)"
    by blast
next
  assume "\<not> adc_control_active s"
  then show "manual_adc_control_y e s = Some s"
    by (simp add: manual_adc_control_y_def)
next
  assume "manual_adc_control_y e s = Some s'"
  then show "\<exists>k\<le>10. pulses (trace s') = pulses (trace s) + k
           \<and> (adc_current_position s' = adc_current_position s + of_nat k
               \<or> adc_current_position s' = adc_current_position s - of_nat k)"
    by (rule manual_adc_control_y_steps)
next
  assume "manual_adc_control_y e s = Some s'" "adc_current_position s' \<noteq> adc_current_position s"
  then show "adc_control_active s"
    by (auto simp: manual_adc_control_y_def Let_def split: if_splits)
next
  assume "manual_adc_control_y e s = Some s'" "adc_current_position s' \<noteq> adc_current_position s"
  then show "\<not> millis e - last_adc_move s < 10"
    by (auto simp: manual_adc_control_y_def Let_def split: if_splits)
qed

theorem current_position_mutators_witness:
  "manual_adc_control_y env_full_scale tracking_on = Some tracking_step
   \<and> adc_control_active tracking_on
   \<and> \<not> millis env_full_scale - last_adc_move tracking_on < 10
   \<and> adc_current_position tracking_on = 0
   \<and> adc_current_position tracking_step = 10
   \<and> pulses (trace tracking_step) = pulses (trace tracking_on) + 10
   \<and> (\<exists>k\<le>10. pulses (trace tracking_step) = pulses (trace tracking_on) + k
          \<and> (adc_current_position tracking_step = adc_current_position tracking_on + of_nat k
              \<or> adc_current_position tracking_step = adc_current_position tracking_on - of_nat k))
   \<and> (\<exists>r. process_manual_command env_full_scale ''adc_zero'' tracking_step = Some r
          \<and> adc_current_position r = 0)
   \<and> (\<exists>r. process_manual_command env_full_scale ''y+5'' tracking_step = Some r
          \<and> adc_current_position r = 10)"
  using current_position_mutators [of env_full_scale "''adc_zero''" tracking_step]
    current_position_mutators [of env_full_scale "''y+5''" tracking_step]
    current_position_mutators [of env_full_scale "''h''" tracking_on tracking_step]
    tracking_step_run tracking_on_facts
  by (simp add: env_full_scale_def)




text \<open>
  C9: with tracking inactive, a tick returns the state it was given: ring, index, filled
  flag, positions, timestamp and trace. No command writes the ring, its index or its flag,
  so the ring is fed by ticks with tracking active only.
\<close>

theorem inactive_tick_changes_nothing:
  "(\<not> adc_control_active s \<longrightarrow> manual_adc_control_y e s = Some s)
   \<and> (process_manual_command e command s = Some r \<longrightarrow>
        adc_buffer r = adc_buffer s \<and> adc_buffer_index r = adc_buffer_index s
        \<and> adc_buffer_filled r = adc_buffer_filled s)"
  using process_manual_command_buffer [of e command s r]
  by (simp add: manual_adc_control_y_def)

theorem inactive_tick_changes_nothing_witness:
  "\<not> adc_control_active initial_state
   \<and> manual_adc_control_y env_full_scale initial_state = Some initial_state
   \<and> process_manual_command env_full_scale ''adc_off'' initial_state
       = Some (emit [SERIAL_ECHOLNPGM ''ADC Position Control DISABLED''] initial_state)
   \<and> adc_buffer (emit [SERIAL_ECHOLNPGM ''ADC Position Control DISABLED''] initial_state)
       = adc_buffer initial_state"
proof -
  have run: "process_manual_command env_full_scale ''adc_off'' initial_state
       = Some (emit [SERIAL_ECHOLNPGM ''ADC Position Control DISABLED''] initial_state)"
    by (simp add: process_manual_command_def initial_state_def emit_def)
  have off: "\<not> adc_control_active initial_state"
    by (simp add: initial_state_def)
  show ?thesis
    using inactive_tick_changes_nothing [of initial_state env_full_scale "''adc_off''"
        "emit [SERIAL_ECHOLNPGM ''ADC Position Control DISABLED''] initial_state"] run off
    by simp
qed

section \<open>The median\<close>

text \<open>
  C8: when the tick computes the median, a push has just been made, so the number of valid
  samples \<^verbatim>\<open>samples_to_use\<close> is between 1 and 8; \<^verbatim>\<open>samples_to_use - 1\<close> is not negative,
  the last index of the sort and the median index lie inside the eight cells, and the
  whole computation, copy, sort and read, returns a value: no index leaves an array and no
  cell is read before it is written. So the tick itself returns from every reachable state.
\<close>

theorem median_indices_in_bounds:
  assumes "reachable s"
  shows "\<exists>s1. push_sample raw_adc s = Some s1
           \<and> 1 \<le> unat (samples_to_use s1) \<and> unat (samples_to_use s1) \<le> ADC_SAMPLES
           \<and> 0 \<le> int (unat (samples_to_use s1)) - 1
           \<and> unat (samples_to_use s1) - 1 < ADC_SAMPLES
           \<and> unat (samples_to_use s1) div 2 < unat (samples_to_use s1)
           \<and> (\<exists>v. filtered_value s1 = Some v)
           \<and> (\<exists>s'. manual_adc_control_y e s = Some s')"
proof -
  from assms have ok: "ring_ok s"
    by (rule reachable_ring_ok)
  have total: "\<exists>s'. manual_adc_control_y e s = Some s'"
  proof (cases "adc_control_active s \<and> \<not> millis e - last_adc_move s < 10")
    case True
    then show ?thesis
      using manual_adc_control_y_run [OF ok, of e] by blast
  next
    case False
    then show ?thesis
      by (auto simp: manual_adc_control_y_def Let_def)
  qed
  from ok obtain s1 where s1: "push_sample raw_adc s = Some s1" "ring_ok s1"
    "1 \<le> unat (samples_to_use s1)" "unat (samples_to_use s1) \<le> ADC_SAMPLES"
    using push_sample_ok by blast
  have fv: "\<exists>v. filtered_value s1 = Some v"
    using filtered_value_ok [OF s1(2,3,4)] .
  have promoted: "0 \<le> int (unat (samples_to_use s1)) - 1"
    using s1(3) by linarith
  have last: "unat (samples_to_use s1) - 1 < ADC_SAMPLES"
    using s1(3,4) by linarith
  have mid: "unat (samples_to_use s1) div 2 < unat (samples_to_use s1)"
    using s1(3) by simp
  from s1(1,3,4) promoted last mid fv total show ?thesis
    by blast
qed

lemma filtered_value_cong:
  "adc_buffer s = adc_buffer t \<Longrightarrow> samples_to_use s = samples_to_use t
     \<Longrightarrow> filtered_value s = filtered_value t"
  by (simp add: filtered_value_def)

lemma spike_median:
  "filtered_value (initial_state\<lparr>adc_buffer := [1000, 2062, 2057, 2061, 2058, 2063, 2059, 2060],
                                 adc_buffer_filled := True\<rparr>) = Some 2060"
  by code_simp

theorem median_indices_in_bounds_witness:
  "reachable tracking_run \<and> adc_control_active tracking_run
   \<and> \<not> millis (env_at 90 1000) - last_adc_move tracking_run < 10
   \<and> adc_buffer tracking_run = [2060, 2062, 2057, 2061, 2058, 2063, 2059, 2060]
   \<and> (\<exists>s1. push_sample 1000 tracking_run = Some s1
         \<and> adc_buffer s1 = [1000, 2062, 2057, 2061, 2058, 2063, 2059, 2060]
         \<and> unat (samples_to_use s1) = 8
         \<and> unat (samples_to_use s1) - 1 < ADC_SAMPLES
         \<and> unat (samples_to_use s1) div 2 < unat (samples_to_use s1)
         \<and> filtered_value s1 = Some 2060)
   \<and> (\<exists>s'. manual_adc_control_y (env_at 90 1000) tracking_run = Some s')"
proof -
  have gate: "\<not> millis (env_at 90 1000) - last_adc_move tracking_run < 10"
    by (simp add: tracking_run_facts env_at_def)
  obtain s1 s' where s1: "push_sample 1000 tracking_run = Some s1"
    "unat (samples_to_use s1) - 1 < ADC_SAMPLES"
    "unat (samples_to_use s1) div 2 < unat (samples_to_use s1)"
    and s': "manual_adc_control_y (env_at 90 1000) tracking_run = Some s'"
    using median_indices_in_bounds [OF reachable_tracking_run, of 1000 "env_at 90 1000"] by blast
  from s1(1) have buf: "adc_buffer s1 = [1000, 2062, 2057, 2061, 2058, 2063, 2059, 2060]"
    and filled: "adc_buffer_filled s1"
    by (auto simp: push_sample_def array_set_def tracking_run_facts)
  then have n: "samples_to_use s1 = 8"
    by (simp add: samples_to_use_def)
  have "filtered_value s1 =
          filtered_value (initial_state\<lparr>adc_buffer := [1000, 2062, 2057, 2061, 2058, 2063, 2059, 2060],
                                         adc_buffer_filled := True\<rparr>)"
    using buf filled by (intro filtered_value_cong) (simp_all add: samples_to_use_def)
  then have "filtered_value s1 = Some 2060"
    by (simp add: spike_median)
  with s1 s' buf n gate show ?thesis
    using reachable_tracking_run tracking_run_facts(1,3) by auto
qed

lemma median_of_rotations:
  "list_all (\<lambda>k. filtered_value
        (initial_state\<lparr>adc_buffer := rotate k [10, 90, 20, 80, 30, 70, 40, 60],
                       adc_buffer_filled := True\<rparr>) = Some 60) [0..<8]"
  by code_simp

lemma push_eight:
  assumes "ring_ok s"
  shows "\<exists>s' k. k < 8 \<and> push_samples [x0, x1, x2, x3, x4, x5, x6, x7] s = Some s'
           \<and> adc_buffer_filled s' \<and> adc_buffer s' = rotate k [x0, x1, x2, x3, x4, x5, x6, x7]"
proof -
  from assms have len: "length (adc_buffer s) = 8" and idx: "unat (adc_buffer_index s) < 8"
    by (simp_all add: ring_ok_def)
  from len obtain a b c d e f g h where buf: "adc_buffer s = [a, b, c, d, e, f, g, h]"
    by (auto simp: numeral_eq_Suc length_Suc_conv)
  from idx consider "unat (adc_buffer_index s) = 0" | "unat (adc_buffer_index s) = 1"
    | "unat (adc_buffer_index s) = 2" | "unat (adc_buffer_index s) = 3"
    | "unat (adc_buffer_index s) = 4" | "unat (adc_buffer_index s) = 5"
    | "unat (adc_buffer_index s) = 6" | "unat (adc_buffer_index s) = 7"
    by linarith
  then show ?thesis
  proof cases
    case 1
    have rot: "rotate 0 [x0, x1, x2, x3, x4, x5, x6, x7] = [x0, x1, x2, x3, x4, x5, x6, x7]"
      by (simp add: numeral_eq_Suc)
    from 1 have "push_samples [x0, x1, x2, x3, x4, x5, x6, x7] s =
        Some (s\<lparr>adc_buffer := [x0, x1, x2, x3, x4, x5, x6, x7],
                 adc_buffer_index := 0, adc_buffer_filled := True\<rparr>)"
      using buf by (simp add: push_sample_def array_set_def)
    then show ?thesis
      using rot
      by (intro exI [of _ "s\<lparr>adc_buffer := [x0, x1, x2, x3, x4, x5, x6, x7],
                 adc_buffer_index := 0, adc_buffer_filled := True\<rparr>"] exI [of _ "0::nat"]) simp
  next
    case 2
    have rot: "rotate 7 [x0, x1, x2, x3, x4, x5, x6, x7] = [x7, x0, x1, x2, x3, x4, x5, x6]"
      by (simp add: numeral_eq_Suc)
    from 2 have "push_samples [x0, x1, x2, x3, x4, x5, x6, x7] s =
        Some (s\<lparr>adc_buffer := [x7, x0, x1, x2, x3, x4, x5, x6],
                 adc_buffer_index := 1, adc_buffer_filled := True\<rparr>)"
      using buf by (simp add: push_sample_def array_set_def)
    then show ?thesis
      using rot
      by (intro exI [of _ "s\<lparr>adc_buffer := [x7, x0, x1, x2, x3, x4, x5, x6],
                 adc_buffer_index := 1, adc_buffer_filled := True\<rparr>"] exI [of _ "7::nat"]) simp
  next
    case 3
    have rot: "rotate 6 [x0, x1, x2, x3, x4, x5, x6, x7] = [x6, x7, x0, x1, x2, x3, x4, x5]"
      by (simp add: numeral_eq_Suc)
    from 3 have "push_samples [x0, x1, x2, x3, x4, x5, x6, x7] s =
        Some (s\<lparr>adc_buffer := [x6, x7, x0, x1, x2, x3, x4, x5],
                 adc_buffer_index := 2, adc_buffer_filled := True\<rparr>)"
      using buf by (simp add: push_sample_def array_set_def)
    then show ?thesis
      using rot
      by (intro exI [of _ "s\<lparr>adc_buffer := [x6, x7, x0, x1, x2, x3, x4, x5],
                 adc_buffer_index := 2, adc_buffer_filled := True\<rparr>"] exI [of _ "6::nat"]) simp
  next
    case 4
    have rot: "rotate 5 [x0, x1, x2, x3, x4, x5, x6, x7] = [x5, x6, x7, x0, x1, x2, x3, x4]"
      by (simp add: numeral_eq_Suc)
    from 4 have "push_samples [x0, x1, x2, x3, x4, x5, x6, x7] s =
        Some (s\<lparr>adc_buffer := [x5, x6, x7, x0, x1, x2, x3, x4],
                 adc_buffer_index := 3, adc_buffer_filled := True\<rparr>)"
      using buf by (simp add: push_sample_def array_set_def)
    then show ?thesis
      using rot
      by (intro exI [of _ "s\<lparr>adc_buffer := [x5, x6, x7, x0, x1, x2, x3, x4],
                 adc_buffer_index := 3, adc_buffer_filled := True\<rparr>"] exI [of _ "5::nat"]) simp
  next
    case 5
    have rot: "rotate 4 [x0, x1, x2, x3, x4, x5, x6, x7] = [x4, x5, x6, x7, x0, x1, x2, x3]"
      by (simp add: numeral_eq_Suc)
    from 5 have "push_samples [x0, x1, x2, x3, x4, x5, x6, x7] s =
        Some (s\<lparr>adc_buffer := [x4, x5, x6, x7, x0, x1, x2, x3],
                 adc_buffer_index := 4, adc_buffer_filled := True\<rparr>)"
      using buf by (simp add: push_sample_def array_set_def)
    then show ?thesis
      using rot
      by (intro exI [of _ "s\<lparr>adc_buffer := [x4, x5, x6, x7, x0, x1, x2, x3],
                 adc_buffer_index := 4, adc_buffer_filled := True\<rparr>"] exI [of _ "4::nat"]) simp
  next
    case 6
    have rot: "rotate 3 [x0, x1, x2, x3, x4, x5, x6, x7] = [x3, x4, x5, x6, x7, x0, x1, x2]"
      by (simp add: numeral_eq_Suc)
    from 6 have "push_samples [x0, x1, x2, x3, x4, x5, x6, x7] s =
        Some (s\<lparr>adc_buffer := [x3, x4, x5, x6, x7, x0, x1, x2],
                 adc_buffer_index := 5, adc_buffer_filled := True\<rparr>)"
      using buf by (simp add: push_sample_def array_set_def)
    then show ?thesis
      using rot
      by (intro exI [of _ "s\<lparr>adc_buffer := [x3, x4, x5, x6, x7, x0, x1, x2],
                 adc_buffer_index := 5, adc_buffer_filled := True\<rparr>"] exI [of _ "3::nat"]) simp
  next
    case 7
    have rot: "rotate 2 [x0, x1, x2, x3, x4, x5, x6, x7] = [x2, x3, x4, x5, x6, x7, x0, x1]"
      by (simp add: numeral_eq_Suc)
    from 7 have "push_samples [x0, x1, x2, x3, x4, x5, x6, x7] s =
        Some (s\<lparr>adc_buffer := [x2, x3, x4, x5, x6, x7, x0, x1],
                 adc_buffer_index := 6, adc_buffer_filled := True\<rparr>)"
      using buf by (simp add: push_sample_def array_set_def)
    then show ?thesis
      using rot
      by (intro exI [of _ "s\<lparr>adc_buffer := [x2, x3, x4, x5, x6, x7, x0, x1],
                 adc_buffer_index := 6, adc_buffer_filled := True\<rparr>"] exI [of _ "2::nat"]) simp
  next
    case 8
    have rot: "rotate 1 [x0, x1, x2, x3, x4, x5, x6, x7] = [x1, x2, x3, x4, x5, x6, x7, x0]"
      by (simp add: numeral_eq_Suc)
    from 8 have "push_samples [x0, x1, x2, x3, x4, x5, x6, x7] s =
        Some (s\<lparr>adc_buffer := [x1, x2, x3, x4, x5, x6, x7, x0],
                 adc_buffer_index := 7, adc_buffer_filled := True\<rparr>)"
      using buf by (simp add: push_sample_def array_set_def)
    then show ?thesis
      using rot
      by (intro exI [of _ "s\<lparr>adc_buffer := [x1, x2, x3, x4, x5, x6, x7, x0],
                 adc_buffer_index := 7, adc_buffer_filled := True\<rparr>"] exI [of _ "1::nat"]) simp
  qed
qed

text \<open>
  C2, as stated, fails: after the eight pushes from the initial state the filtered value
  is not 40.
\<close>

theorem median_scenario_is_not_40:
  "push_samples [10, 90, 20, 80, 30, 70, 40, 60] initial_state \<bind> filtered_value \<noteq> Some 40"
  by code_simp

text \<open>
  C2, amended: after 8 consecutive pushes of 10, 90, 20, 80, 30, 70, 40, 60, from any
  reachable state, the filtered value is 60: the element at index \<^verbatim>\<open>count / 2\<close> = 4 of the
  sorted window 10, 20, 30, 40, 60, 70, 80, 90, which is the upper of the two middle
  elements.
\<close>

theorem median_scenario_is_60:
  assumes "reachable s"
  shows "push_samples [10, 90, 20, 80, 30, 70, 40, 60] s \<bind> filtered_value = Some 60"
proof -
  from assms have "ring_ok s"
    by (rule reachable_ring_ok)
  then obtain s' k where k: "k < 8"
    and run: "push_samples [10, 90, 20, 80, 30, 70, 40, 60] s = Some s'"
    and filled: "adc_buffer_filled s'"
    and buf: "adc_buffer s' = rotate k [10, 90, 20, 80, 30, 70, 40, 60]"
    using push_eight by blast
  let ?t = "initial_state\<lparr>adc_buffer := rotate k [10, 90, 20, 80, 30, 70, 40, 60],
                       adc_buffer_filled := True\<rparr>"
  have "filtered_value s' = filtered_value ?t"
    using filled buf by (intro filtered_value_cong) (simp_all add: samples_to_use_def)
  also have "\<dots> = Some 60"
    using median_of_rotations k by (simp add: list_all_iff)
  finally show ?thesis
    using run by simp
qed

theorem median_scenario_is_60_witness:
  "reachable initial_state
   \<and> push_samples [10, 90, 20, 80, 30, 70, 40, 60] initial_state \<bind> filtered_value = Some 60"
  using median_scenario_is_60 [OF reachable.init] reachable.init by simp

section \<open>The median is one of the readings in the ring\<close>

lemma cells_ok_update:
  assumes "cells_ok P sb" "P v"
  shows "cells_ok P (sb[k := Some v])"
proof -
  have "set (sb[k := Some v]) \<subseteq> insert (Some v) (set sb)"
    by (rule set_update_subset_insert)
  with assms show ?thesis
    by (auto simp: cells_ok_def)
qed

lemma cells_ok_get:
  assumes "cells_ok P sb" "scratch_get sb k = Some v"
  shows "P v"
proof -
  from assms(2) have "k < length sb" "sb ! k = Some v"
    by (auto simp: scratch_get_def split: if_splits)
  then have "Some v \<in> set sb"
    by (metis nth_mem)
  with assms(1) show ?thesis
    by (simp add: cells_ok_def)
qed

lemma copy_loop_cells:
  assumes "cells_ok P sb" "\<forall>x\<in>set buf. P x" "copy_loop buf sb n i = Some sb'"
  shows "cells_ok P sb'"
  using assms
proof (induction buf sb n i rule: copy_loop.induct)
  case (1 buf sorted_buffer n i)
  show ?case
  proof (cases "i < n")
    case True
    from "1.prems"(3) True obtain v sb1 where v: "array_get buf (unat i) = Some v"
      and sb1: "array_set sorted_buffer (unat i) (Some v) = Some sb1"
      and rest: "copy_loop buf sb1 n (i + 1) = Some sb'"
      by (subst (asm) copy_loop.simps) (auto split: bind_splits)
    from v have "v \<in> set buf"
      by (auto simp: array_get_def split: if_splits)
    with "1.prems"(2) have "P v"
      by simp
    moreover from sb1 have "sb1 = sorted_buffer[unat i := Some v]"
      by (auto simp: array_set_def split: if_splits)
    ultimately have "cells_ok P sb1"
      using "1.prems"(1) by (simp add: cells_ok_update)
    then show ?thesis
      using "1.IH" [OF True v sb1 _ "1.prems"(2) rest] by simp
  next
    case False
    with "1.prems"(3) have "sb' = sorted_buffer"
      by (subst (asm) copy_loop.simps) simp
    with "1.prems"(1) show ?thesis
      by simp
  qed
qed

lemma bubble_inner_cells:
  assumes "cells_ok P sb" "bubble_inner sb n i j = Some sb'"
  shows "cells_ok P sb'"
  using assms
proof (induction sb n i j rule: bubble_inner.induct)
  case (1 sorted_buffer n i j)
  show ?case
  proof (cases "int (unat j) < int (unat n) - int (unat i) - 1")
    case True
    from "1.prems"(2) True obtain a b sb1 where a: "scratch_get sorted_buffer (unat j) = Some a"
      and b: "scratch_get sorted_buffer (unat j + 1) = Some b"
      and sb1: "(if a > b then
                  do {
                    t \<leftarrow> array_set sorted_buffer (unat j) (Some b);
                    array_set t (unat j + 1) (Some a)
                  }
                else Some sorted_buffer) = Some sb1"
      and rest: "bubble_inner sb1 n i (j + 1) = Some sb'"
      by (subst (asm) bubble_inner.simps) (auto split: bind_splits)
    have pa: "P a" and pb: "P b"
      using cells_ok_get [OF "1.prems"(1)] a b by blast+
    from sb1 have "sb1 = sorted_buffer \<or> sb1 = sorted_buffer[unat j := Some b, unat j + 1 := Some a]"
      by (auto simp: array_set_def split: if_splits bind_splits)
    then have "cells_ok P sb1"
      using "1.prems"(1) pa pb by (auto simp: cells_ok_update)
    then show ?thesis
      using "1.IH" [OF True a b sb1 _ rest] by simp
  next
    case False
    with "1.prems"(2) have "sb' = sorted_buffer"
      by (subst (asm) bubble_inner.simps) simp
    with "1.prems"(1) show ?thesis
      by simp
  qed
qed

lemma bubble_outer_cells:
  assumes "cells_ok P sb" "bubble_outer sb n i = Some sb'"
  shows "cells_ok P sb'"
  using assms
proof (induction sb n i rule: bubble_outer.induct)
  case (1 sorted_buffer n i)
  show ?case
  proof (cases "int (unat i) < int (unat n) - 1")
    case True
    from "1.prems"(2) True obtain sb1 where sb1: "bubble_inner sorted_buffer n i 0 = Some sb1"
      and rest: "bubble_outer sb1 n (i + 1) = Some sb'"
      by (subst (asm) bubble_outer.simps) (auto split: bind_splits)
    from "1.prems"(1) sb1 have "cells_ok P sb1"
      by (rule bubble_inner_cells)
    then show ?thesis
      using "1.IH" [OF True sb1 _ rest] by simp
  next
    case False
    with "1.prems"(2) have "sb' = sorted_buffer"
      by (subst (asm) bubble_outer.simps) simp
    with "1.prems"(1) show ?thesis
      by simp
  qed
qed

lemma filtered_value_in:
  assumes "\<forall>x\<in>set (adc_buffer s). P x" "filtered_value s = Some v"
  shows "P v"
proof -
  from assms(2) obtain sb0 sb1 where
    sb0: "copy_loop (adc_buffer s) (replicate ADC_SAMPLES None) (samples_to_use s) 0 = Some sb0"
    and sb1: "bubble_outer sb0 (samples_to_use s) 0 = Some sb1"
    and v: "scratch_get sb1 (unat (samples_to_use s) div 2) = Some v"
    by (auto simp: filtered_value_def Let_def split: bind_splits)
  have "cells_ok P (replicate ADC_SAMPLES None)"
    by (simp add: cells_ok_def)
  then have "cells_ok P sb0"
    using assms(1) sb0 by (rule copy_loop_cells)
  then have "cells_ok P sb1"
    using sb1 by (rule bubble_outer_cells)
  then show ?thesis
    using v by (rule cells_ok_get)
qed

section \<open>The operating range\<close>

lemma sdiv_nonneg: "0 \<le> a \<Longrightarrow> 0 < b \<Longrightarrow> (a::int) sdiv b = a div b"
  by (simp add: signed_divide_int_def sgn_if)

lemma linear_map_bound:
  fixes v :: u16 and pr :: i32
  assumes v: "v \<le> 4095" and pos: "0 < sint pr" and le: "sint pr \<le> 50000"
  shows "\<bar>sint (linear_map (ucast v) 0 (ucast (4095 :: u16)) (sdiv32 (- pr) 2) (sdiv32 pr 2))\<bar>
           \<le> 25000"
proof -
  define h where "h = sint pr div 2"
  define x where "x = uint v"
  define q where "q = (x * (2 * h)) div 4095"
  have h: "0 \<le> h" "h \<le> 25000"
    using pos le by (simp_all add: h_def)
  have x: "0 \<le> x" "x \<le> 4095"
    using v by (simp_all add: x_def word_le_def)
  have q: "0 \<le> q" "q \<le> 2 * h"
  proof -
    have "0 \<le> x * (2 * h)"
      using x h by simp
    then show "0 \<le> q"
      by (simp add: q_def pos_imp_zdiv_nonneg_iff)
    have "x * (2 * h) \<le> 4095 * (2 * h)"
      using x h by (intro mult_right_mono) simp_all
    then have "(x * (2 * h)) div 4095 \<le> (4095 * (2 * h)) div 4095"
      by (rule zdiv_mono1) simp
    then show "q \<le> 2 * h"
      by (simp add: q_def)
  qed
  have xw: "(ucast v :: i32) = word_of_int x"
    by (simp add: x_def)
  have omax: "sdiv32 pr 2 = word_of_int h"
    using pos by (simp add: sdiv32_def h_def sdiv_nonneg)
  have "sint (- pr) = - sint pr"
  proof -
    have "- pr = word_of_int (- sint pr)"
      by simp
    then show ?thesis
      using sint_i32_of_int [of "- sint pr"] pos le by simp
  qed
  moreover have "(- sint pr) sdiv 2 = - h"
    using pos sdiv_nonneg [of "sint pr" 2] by (simp add: h_def)
  ultimately have omin: "sdiv32 (- pr) 2 = word_of_int (- h)"
    unfolding sdiv32_def by simp
  have prod: "(word_of_int x - 0) * (word_of_int h - word_of_int (- h)) = (word_of_int (x * (2 * h)) :: i32)"
    by (simp add: algebra_simps)
  have xh: "0 \<le> x * (2 * h)" "x * (2 * h) \<le> 204750000"
  proof -
    show "0 \<le> x * (2 * h)"
      using x h by simp
    have "x * (2 * h) \<le> 4095 * (2 * 25000)"
      using x h by (intro mult_mono) simp_all
    then show "x * (2 * h) \<le> 204750000"
      by simp
  qed
  have sprod: "sint (word_of_int (x * (2 * h)) :: i32) = x * (2 * h)"
    using xh by (intro sint_i32_of_int) linarith+
  have den: "sint ((ucast (4095 :: u16) :: i32) - 0) = 4095"
    by simp
  have quot: "sdiv32 (word_of_int (x * (2 * h))) ((ucast (4095 :: u16) :: i32) - 0) = word_of_int q"
    unfolding sdiv32_def sprod den using xh by (simp add: sdiv_nonneg q_def)
  have "linear_map (ucast v) 0 (ucast (4095 :: u16)) (sdiv32 (- pr) 2) (sdiv32 pr 2)
          = word_of_int q + word_of_int (- h)"
    unfolding linear_map_def xw omax omin prod quot ..
  also have "\<dots> = word_of_int (q - h)"
    by simp
  finally have "sint (linear_map (ucast v) 0 (ucast (4095 :: u16)) (sdiv32 (- pr) 2) (sdiv32 pr 2))
                  = q - h"
    using sint_i32_of_int [of "q - h"] q h by simp
  then show ?thesis
    using q h by simp
qed

lemma operating_tick:
  assumes inv: "in_range s" and fw: "firmware_env e"
    and act: "adc_control_active s" and gate: "\<not> millis e - last_adc_move s < 10"
  shows "\<exists>s'. manual_adc_control_y e s = Some s' \<and> in_range s'
           \<and> \<bar>sint (adc_target_position s')\<bar> \<le> 25000
           \<and> (let T = sint (adc_target_position s');
                   C = sint (adc_current_position s);
                   C' = sint (adc_current_position s')
               in 5 < \<bar>T - C\<bar> \<longrightarrow>
                    1 \<le> \<bar>C' - C\<bar> \<and> \<bar>C' - C\<bar> \<le> 10
                    \<and> \<bar>C' - C\<bar> = min \<bar>T - C\<bar> 10
                    \<and> \<bar>T - C'\<bar> < \<bar>T - C\<bar>
                    \<and> (C < T \<longrightarrow> C < C' \<and> C' \<le> T)
                    \<and> (T < C \<longrightarrow> T \<le> C' \<and> C' < C)
                    \<and> int (pulses (trace s')) = int (pulses (trace s)) + \<bar>C' - C\<bar>)"
proof -
  from inv have ok: "ring_ok s" and buf: "\<forall>x\<in>set (adc_buffer s). x \<le> 4095"
    and ar: "adc_range s = 4095"
    and pr: "0 < sint (position_range s)" "sint (position_range s) \<le> 50000"
    and cb: "\<bar>sint (adc_current_position s)\<bar> \<le> 25000"
    by (simp_all add: in_range_def)
  from fw have mp: "map_fn e = linear_map" and rd: "analogRead e TEMP_BED_PIN \<le> 4095"
    by (simp_all add: firmware_env_def)
  obtain s1 v where push: "push_sample (analogRead e TEMP_BED_PIN) s = Some s1"
    and ok1: "ring_ok s1" and fv: "filtered_value s1 = Some v"
    and s1: "s1 = s\<lparr>adc_buffer := adc_buffer s1, adc_buffer_index := adc_buffer_index s1,
                     adc_buffer_filled := adc_buffer_filled s1\<rparr>"
    and run: "manual_adc_control_y e s =
               Some (let s2 = s1\<lparr>adc_target_position :=
                                   map_fn e (ucast v) 0 (ucast (adc_range s1))
                                     (sdiv32 (- position_range s1) 2) (sdiv32 (position_range s1) 2)\<rparr>;
                         position_error = adc_target_position s2 - adc_current_position s2
                     in if 5 <s abs_i32 position_error
                        then corrective_move (millis e) (analogRead e TEMP_BED_PIN) v position_error s2
                        else s2)"
    using manual_adc_control_y_run [OF ok act gate] by blast
  define c where "c = adc_current_position s"
  have f1: "adc_current_position s1 = c" "trace s1 = trace s" "adc_range s1 = 4095"
    "position_range s1 = position_range s"
    unfolding c_def by (subst s1, simp add: ar)+
  have buf1: "\<forall>x\<in>set (adc_buffer s1). x \<le> 4095"
    using push_sample_set [OF push] buf rd by auto
  have v: "v \<le> 4095"
    using buf1 fv by (rule filtered_value_in)
  define T where "T = linear_map (ucast v) 0 (ucast (4095 :: u16))
                        (sdiv32 (- position_range s) 2) (sdiv32 (position_range s) 2)"
  have Tb: "\<bar>sint T\<bar> \<le> 25000"
    unfolding T_def using v pr by (rule linear_map_bound)
  define s2 where "s2 = s1\<lparr>adc_target_position := T\<rparr>"
  define s' where "s' = (if 5 <s abs_i32 (T - c)
                        then corrective_move (millis e) (analogRead e TEMP_BED_PIN) v (T - c) s2
                        else s2)"
  have run': "manual_adc_control_y e s = Some s'"
    using run by (simp add: s'_def s2_def T_def Let_def f1 mp)
  have tgt: "adc_target_position s' = T"
    by (simp add: s'_def s2_def corrective_move_result)
  have cfg: "adc_range s' = 4095" "position_range s' = position_range s"
    "adc_buffer s' = adc_buffer s1" "adc_buffer_index s' = adc_buffer_index s1"
    by (simp_all add: s'_def s2_def corrective_move_result corrective_move_config f1)
  have cb': "\<bar>sint c\<bar> \<le> 25000"
    using cb by (simp add: c_def)
  define k where "k = unat (min (ucast (abs_i32 (T - c)) :: u16) 10)"
  have small: "adc_current_position s' = c \<and> trace s' = trace s"
    if "\<bar>sint T - sint c\<bar> \<le> 5"
  proof -
    from that have "\<not> 5 <s abs_i32 (T - c)"
      by (rule deadzone_word)
    then show ?thesis
      by (simp add: s'_def s2_def f1)
  qed
  have big: "sint (adc_current_position s') = sint c + (if sint c < sint T then int k else - int k)
      \<and> int k = min \<bar>sint T - sint c\<bar> 10
      \<and> pulses (trace s') = pulses (trace s) + k"
    if big: "5 < \<bar>sint T - sint c\<bar>"
  proof -
    have fits: "\<bar>sint T - sint c\<bar> \<le> 65535"
      using Tb cb' by linarith
    have gt: "5 <s abs_i32 (T - c)"
      and kk: "int k = min \<bar>sint T - sint c\<bar> 10"
      and pos: "sint (c + (if 0 <s T - c then 1 else - 1) * of_nat k)
                  = sint c + (if sint c < sint T then int k else - int k)"
      using rate_limit_word [OF big fits] by (simp_all add: k_def)
    from gt have s'eq: "s' = corrective_move (millis e) (analogRead e TEMP_BED_PIN) v (T - c) s2"
      by (simp add: s'_def)
    have c': "adc_current_position s' = c + (if 0 <s T - c then 1 else - 1) * of_nat k"
      unfolding s'eq by (simp add: corrective_move_result k_def s2_def f1)
    have p': "pulses (trace s') = pulses (trace s) + k"
      unfolding s'eq by (simp add: corrective_move_result k_def s2_def f1)
    show ?thesis
      using pos c' kk p' by simp
  qed
  have posb: "\<bar>sint (adc_current_position s')\<bar> \<le> 25000"
  proof (cases "5 < \<bar>sint T - sint c\<bar>")
    case True
    from big [OF True] Tb cb' True show ?thesis
      by (auto simp: min_def split: if_splits)
  next
    case False
    then have "adc_current_position s' = c"
      using small by simp
    with cb' show ?thesis
      by simp
  qed
  have inv': "in_range s'"
    using ok1 buf1 cfg pr posb by (simp add: in_range_def ring_ok_def)
  have concl: "let T' = sint (adc_target_position s');
                   C = sint (adc_current_position s);
                   C' = sint (adc_current_position s')
               in 5 < \<bar>T' - C\<bar> \<longrightarrow>
                    1 \<le> \<bar>C' - C\<bar> \<and> \<bar>C' - C\<bar> \<le> 10
                    \<and> \<bar>C' - C\<bar> = min \<bar>T' - C\<bar> 10
                    \<and> \<bar>T' - C'\<bar> < \<bar>T' - C\<bar>
                    \<and> (C < T' \<longrightarrow> C < C' \<and> C' \<le> T')
                    \<and> (T' < C \<longrightarrow> T' \<le> C' \<and> C' < C)
                    \<and> int (pulses (trace s')) = int (pulses (trace s)) + \<bar>C' - C\<bar>"
    unfolding Let_def tgt c_def [symmetric]
  proof (intro impI)
    assume b: "5 < \<bar>sint T - sint c\<bar>"
    from big [OF b] b show "1 \<le> \<bar>sint (adc_current_position s') - sint c\<bar>
      \<and> \<bar>sint (adc_current_position s') - sint c\<bar> \<le> 10
      \<and> \<bar>sint (adc_current_position s') - sint c\<bar> = min \<bar>sint T - sint c\<bar> 10
      \<and> \<bar>sint T - sint (adc_current_position s')\<bar> < \<bar>sint T - sint c\<bar>
      \<and> (sint c < sint T \<longrightarrow> sint c < sint (adc_current_position s')
             \<and> sint (adc_current_position s') \<le> sint T)
      \<and> (sint T < sint c \<longrightarrow> sint T \<le> sint (adc_current_position s')
             \<and> sint (adc_current_position s') < sint c)
      \<and> int (pulses (trace s')) = int (pulses (trace s)) + \<bar>sint (adc_current_position s') - sint c\<bar>"
      by (auto simp: min_def split: if_splits)
  qed
  from run' inv' Tb tgt concl show ?thesis
    by (intro exI [of _ s']) simp
qed

lemma in_range_initial: "in_range initial_state"
  by (simp add: in_range_def ring_ok_def initial_state_def)

lemma in_range_statics:
  assumes "statics r = statics t" "in_range t"
  shows "in_range r"
proof -
  have "adc_buffer (statics r) = adc_buffer (statics t)"
    "adc_buffer_index (statics r) = adc_buffer_index (statics t)"
    "adc_range (statics r) = adc_range (statics t)"
    "position_range (statics r) = position_range (statics t)"
    "adc_current_position (statics r) = adc_current_position (statics t)"
    using assms(1) by simp_all
  then have "adc_buffer r = adc_buffer t" "adc_buffer_index r = adc_buffer_index t"
    "adc_range r = adc_range t" "position_range r = position_range t"
    "adc_current_position r = adc_current_position t"
    by (simp_all add: statics_def)
  with assms(2) show ?thesis
    by (simp add: in_range_def ring_ok_def)
qed

lemma in_range_command_effect:
  assumes "in_range s"
  shows "in_range (command_effect command s)"
proof -
  have "0 < sint n \<and> sint n \<le> 50000" if "0 <s n" "n \<le>s 50000" for n :: i32
    using that by (simp add: word_sless_alt word_sle_eq)
  with assms show ?thesis
    by (auto simp: command_effect_def in_range_def ring_ok_def)
qed

lemma operating_in_range: "operating s \<Longrightarrow> in_range s"
proof (induction rule: operating.induct)
  case init
  show ?case by (rule in_range_initial)
next
  case (tick s e s')
  show ?case
  proof (cases "adc_control_active s \<and> \<not> millis e - last_adc_move s < 10")
    case True
    then obtain t where "manual_adc_control_y e s = Some t" "in_range t"
      using operating_tick [OF tick.IH tick.hyps(2)] by blast
    with tick.hyps(3) show ?thesis
      by simp
  next
    case False
    with tick.hyps(3) have "s' = s"
      by (auto simp: manual_adc_control_y_def Let_def split: if_splits)
    with tick.IH show ?thesis
      by simp
  qed
next
  case (command s e cmd s')
  from command.hyps(2) have "statics s' = statics (command_effect cmd s)"
    by (rule process_manual_command_statics)
  then show ?case
    using in_range_command_effect [OF command.IH] by (rule in_range_statics)
qed

lemma operating_reachable: "operating s \<Longrightarrow> reachable s"
  by (induction rule: operating.induct) (auto intro: reachable.intros)

lemma operating_tracking_on: "operating tracking_on"
  using operating.command [OF operating.init tracking_on_run] .

lemma firmware_env_at: "r \<le> 4095 \<Longrightarrow> firmware_env (env_at t r)"
  by (simp add: firmware_env_def env_at_def)

section \<open>Deadzone and rate limit\<close>

text \<open>
  C6: in a tick with tracking active and past the rate gate, if the new target is within
  5 steps of the current position, the position is unchanged and the trace is unchanged:
  no pin is written and no step pulse is issued. The state is any state whose ring is
  well-formed, as that of every reachable state is; target and position are arbitrary.
\<close>

theorem tracking_tick_deadzone:
  assumes "ring_ok s" "adc_control_active s" "\<not> millis e - last_adc_move s < 10"
  shows "\<exists>s'. manual_adc_control_y e s = Some s'
           \<and> (\<bar>sint (adc_target_position s') - sint (adc_current_position s)\<bar> \<le> 5 \<longrightarrow>
                adc_current_position s' = adc_current_position s
                \<and> trace s' = trace s \<and> pulses (trace s') = pulses (trace s))"
proof -
  from assms(1) have ok: "ring_ok s" .
  obtain s1 v where s1: "s1 = s\<lparr>adc_buffer := adc_buffer s1, adc_buffer_index := adc_buffer_index s1,
                     adc_buffer_filled := adc_buffer_filled s1\<rparr>"
    and run: "manual_adc_control_y e s =
               Some (let s2 = s1\<lparr>adc_target_position :=
                                   map_fn e (ucast v) 0 (ucast (adc_range s1))
                                     (sdiv32 (- position_range s1) 2) (sdiv32 (position_range s1) 2)\<rparr>;
                         position_error = adc_target_position s2 - adc_current_position s2
                     in if 5 <s abs_i32 position_error
                        then corrective_move (millis e) (analogRead e TEMP_BED_PIN) v position_error s2
                        else s2)"
    using manual_adc_control_y_run [OF ok assms(2,3)] by blast
  define T where "T = map_fn e (ucast v) 0 (ucast (adc_range s1))
                        (sdiv32 (- position_range s1) 2) (sdiv32 (position_range s1) 2)"
  define s2 where "s2 = s1\<lparr>adc_target_position := T\<rparr>"
  define s' where "s' = (if 5 <s abs_i32 (T - adc_current_position s1)
                        then corrective_move (millis e) (analogRead e TEMP_BED_PIN) v
                               (T - adc_current_position s1) s2
                        else s2)"
  have run': "manual_adc_control_y e s = Some s'"
    using run by (simp add: s'_def s2_def T_def Let_def)
  have cur: "adc_current_position s1 = adc_current_position s" and tr: "trace s1 = trace s"
    by (subst s1, simp)+
  have tgt: "adc_target_position s' = T"
    by (simp add: s'_def s2_def corrective_move_result)
  have "adc_current_position s' = adc_current_position s \<and> trace s' = trace s
          \<and> pulses (trace s') = pulses (trace s)"
    if "\<bar>sint (adc_target_position s') - sint (adc_current_position s)\<bar> \<le> 5"
  proof -
    from that have "\<not> 5 <s abs_i32 (T - adc_current_position s1)"
      using deadzone_word [of T "adc_current_position s1"] by (simp add: tgt cur)
    then have "s' = s2"
      by (simp add: s'_def)
    then show ?thesis
      by (simp add: s2_def cur tr)
  qed
  with run' show ?thesis
    by blast
qed

theorem tracking_tick_deadzone_witness:
  "ring_ok tracking_on \<and> adc_control_active tracking_on
   \<and> \<not> millis env_centre - last_adc_move tracking_on < 10
   \<and> (\<exists>s'. manual_adc_control_y env_centre tracking_on = Some s'
          \<and> \<bar>sint (adc_target_position s') - sint (adc_current_position tracking_on)\<bar> \<le> 5
          \<and> adc_current_position s' = adc_current_position tracking_on
          \<and> trace s' = trace tracking_on)"
proof -
  have gate: "\<not> millis env_centre - last_adc_move tracking_on < 10"
    by (simp add: tracking_on_facts env_centre_def)
  have target: "map_option adc_target_position (manual_adc_control_y env_centre tracking_on) = Some 0"
    by code_simp
  obtain s' where s': "manual_adc_control_y env_centre tracking_on = Some s'"
    and dz: "\<bar>sint (adc_target_position s') - sint (adc_current_position tracking_on)\<bar> \<le> 5 \<longrightarrow>
                adc_current_position s' = adc_current_position tracking_on
                \<and> trace s' = trace tracking_on \<and> pulses (trace s') = pulses (trace tracking_on)"
    using tracking_tick_deadzone [OF ring_ok_tracking_on tracking_on_facts(1) gate] by blast
  from target s' have "adc_target_position s' = 0"
    by simp
  with dz s' gate show ?thesis
    using ring_ok_tracking_on by (auto simp: tracking_on_facts)
qed

text \<open>
  C5: in the running firmware, in a tick with tracking active and past the rate gate, if
  the new target is more than 5 steps from the current position, the position moves by
  \<open>min \<bar>target - current\<bar> 10\<close> steps, at least 1 and at most 10, towards the target and not
  beyond it, with one step pulse per unit. There the target and the position stay within
  25000 of 0, so that the distance fits the 16-bit step count of line 177.
\<close>

theorem tracking_tick_rate_limit:
  assumes "operating s" "firmware_env e"
    and "adc_control_active s" "\<not> millis e - last_adc_move s < 10"
  shows "\<exists>s'. manual_adc_control_y e s = Some s'
           \<and> (let T = sint (adc_target_position s');
                   C = sint (adc_current_position s);
                   C' = sint (adc_current_position s')
               in 5 < \<bar>T - C\<bar> \<longrightarrow>
                    1 \<le> \<bar>C' - C\<bar> \<and> \<bar>C' - C\<bar> \<le> 10
                    \<and> \<bar>C' - C\<bar> = min \<bar>T - C\<bar> 10
                    \<and> \<bar>T - C'\<bar> < \<bar>T - C\<bar>
                    \<and> (C < T \<longrightarrow> C < C' \<and> C' \<le> T)
                    \<and> (T < C \<longrightarrow> T \<le> C' \<and> C' < C)
                    \<and> int (pulses (trace s')) = int (pulses (trace s)) + \<bar>C' - C\<bar>)"
proof -
  from assms(1) have "in_range s"
    by (rule operating_in_range)
  then show ?thesis
    using operating_tick [OF _ assms(2,3,4)] by blast
qed

theorem tracking_tick_rate_limit_witness:
  "operating tracking_on \<and> firmware_env (env_at 10 4095) \<and> adc_control_active tracking_on
   \<and> \<not> millis (env_at 10 4095) - last_adc_move tracking_on < 10
   \<and> (\<exists>s'. manual_adc_control_y (env_at 10 4095) tracking_on = Some s'
          \<and> sint (adc_target_position s') = 3200
          \<and> sint (adc_current_position tracking_on) = 0
          \<and> 5 < \<bar>sint (adc_target_position s') - sint (adc_current_position tracking_on)\<bar>
          \<and> \<bar>sint (adc_current_position s') - sint (adc_current_position tracking_on)\<bar> = 10
          \<and> int (pulses (trace s')) = int (pulses (trace tracking_on)) + 10)"
proof -
  have fw: "firmware_env (env_at 10 4095)"
    by (simp add: firmware_env_at)
  have gate: "\<not> millis (env_at 10 4095) - last_adc_move tracking_on < 10"
    by (simp add: tracking_on_facts env_at_def)
  have target: "map_option adc_target_position (manual_adc_control_y (env_at 10 4095) tracking_on)
                  = Some 3200"
    by code_simp
  obtain s' where s': "manual_adc_control_y (env_at 10 4095) tracking_on = Some s'"
    and rl: "let T = sint (adc_target_position s');
                   C = sint (adc_current_position tracking_on);
                   C' = sint (adc_current_position s')
               in 5 < \<bar>T - C\<bar> \<longrightarrow>
                    1 \<le> \<bar>C' - C\<bar> \<and> \<bar>C' - C\<bar> \<le> 10
                    \<and> \<bar>C' - C\<bar> = min \<bar>T - C\<bar> 10
                    \<and> \<bar>T - C'\<bar> < \<bar>T - C\<bar>
                    \<and> (C < T \<longrightarrow> C < C' \<and> C' \<le> T)
                    \<and> (T < C \<longrightarrow> T \<le> C' \<and> C' < C)
                    \<and> int (pulses (trace s')) = int (pulses (trace tracking_on)) + \<bar>C' - C\<bar>"
    using tracking_tick_rate_limit [OF operating_tracking_on fw tracking_on_facts(1) gate] by blast
  from target s' have "adc_target_position s' = 3200"
    by simp
  with rl s' gate fw show ?thesis
    using operating_tracking_on by (auto simp: tracking_on_facts Let_def)
qed

section \<open>The resistance estimate\<close>

lemma rounding_grid: "rounding grid round_grid"
  unfolding rounding_def
proof (intro conjI allI impI ballI)
  fix x y :: real
  assume "x \<le> y"
  then have "\<lfloor>x * 4194304 + 1 / 2\<rfloor> \<le> \<lfloor>y * 4194304 + 1 / 2\<rfloor>"
    by (intro floor_mono) simp
  then show "round_grid x \<le> round_grid y"
    by (simp add: round_grid_def divide_right_mono)
next
  show "round_grid 0 = 0"
    by (simp add: round_grid_def)
next
  fix a b :: real
  assume "a \<in> grid" "b \<in> grid" "a < b"
  then obtain i j :: int where a: "a = of_int i / 4194304" and b: "b = of_int j / 4194304"
    by (auto simp: grid_def)
  with \<open>a < b\<close> have "i < j"
    by (simp add: divide_less_cancel)
  have "(b - a) * 4194304 + 1 / 2 = of_int (j - i) + 1 / 2"
    by (simp add: a b field_simps)
  then have "\<lfloor>(b - a) * 4194304 + 1 / 2\<rfloor> = j - i"
    by (simp add: floor_unique)
  with \<open>i < j\<close> show "0 < round_grid (b - a)"
    by (simp add: round_grid_def)
qed

lemma grid_members: "supply_f \<in> grid" "1 \<in> grid" "2 \<in> grid"
proof -
  show "supply_f \<in> grid"
    unfolding grid_def supply_f_def by (rule range_eqI [of _ _ 13841203]) simp
  show "1 \<in> grid"
    unfolding grid_def by (rule range_eqI [of _ _ 4194304]) simp
  show "2 \<in> grid"
    unfolding grid_def by (rule range_eqI [of _ _ 8388608]) simp
qed

lemma calculate_resistance_mono:
  assumes r: "rounding F rnd" and s: "supply_f \<in> F" and R: "0 \<le> pullup"
    and v: "v1 \<in> F" "v2 \<in> F" "0 < v1" "v1 \<le> v2" "v2 < supply_f"
  shows "calculate_resistance rnd v1 pullup \<le> calculate_resistance rnd v2 pullup"
proof -
  from r have mono: "\<And>x y. x \<le> y \<Longrightarrow> rnd x \<le> rnd y" and zero: "rnd 0 = 0"
    and pos: "\<And>a b. a \<in> F \<Longrightarrow> b \<in> F \<Longrightarrow> a < b \<Longrightarrow> 0 < rnd (b - a)"
    by (simp_all add: rounding_def)
  have "0 \<le> v1 * pullup"
    using v(3) R by simp
  then have n1: "0 \<le> rnd (v1 * pullup)"
    using mono [of 0 "v1 * pullup"] zero by simp
  have n12: "rnd (v1 * pullup) \<le> rnd (v2 * pullup)"
    using v(4) R by (intro mono mult_right_mono)
  have d2: "0 < rnd (supply_f - v2)"
    using pos [OF v(2) s v(5)] .
  have d21: "rnd (supply_f - v2) \<le> rnd (supply_f - v1)"
    using v(4) by (intro mono) simp
  have "rnd (v1 * pullup) / rnd (supply_f - v1) \<le> rnd (v2 * pullup) / rnd (supply_f - v2)"
    using n1 n12 d2 d21 by (intro frac_le) simp_all
  then have "rnd (rnd (v1 * pullup) / rnd (supply_f - v1))
               \<le> rnd (rnd (v2 * pullup) / rnd (supply_f - v2))"
    by (rule mono)
  with v show ?thesis
    by (simp add: calculate_resistance_def)
qed

text \<open>
  C7, as stated, fails: 1 and the binary32 number \<^verbatim>\<open>3.3f\<close> both lie in the open interval
  from 0 to 3.3, and the result is positive at 1 and 0 at \<^verbatim>\<open>3.3f\<close>.
\<close>

theorem calculate_resistance_not_monotone_below_3_3:
  "(0 :: real) < 1 \<and> 1 < supply_f \<and> supply_f < 33 / 10
   \<and> calculate_resistance round_grid supply_f 4700 = 0
   \<and> 0 < calculate_resistance round_grid 1 4700"
proof -
  have "\<lfloor>(9646899 / 4194304 :: real) * 4194304 + 1 / 2\<rfloor> = 9646899"
    by (simp add: floor_unique)
  then have den: "round_grid (9646899 / 4194304) = 9646899 / 4194304"
    by (simp add: round_grid_def)
  have "\<lfloor>(4700 :: real) * 4194304 + 1 / 2\<rfloor> = 19713228800"
    by (simp add: floor_unique)
  then have num: "round_grid 4700 = 4700"
    by (simp add: round_grid_def)
  have "(1 :: real) \<le> (4700 / (9646899 / 4194304)) * 4194304 + 1 / 2"
    by simp
  then have "1 \<le> \<lfloor>(4700 / (9646899 / 4194304 :: real)) * 4194304 + 1 / 2\<rfloor>"
    by (simp add: le_floor_iff)
  then have "0 < round_grid (4700 / (9646899 / 4194304))"
    by (simp add: round_grid_def)
  then have "0 < calculate_resistance round_grid 1 4700"
    by (simp add: calculate_resistance_def supply_f_def num den)
  then show ?thesis
    by (simp add: calculate_resistance_def supply_f_def)
qed

text \<open>
  C7, amended: \<^verbatim>\<open>calculate_resistance\<close>, with a pull-up that is not negative, is
  monotonically increasing in the voltage on the open interval from 0 to the binary32
  number \<^verbatim>\<open>3.3f\<close>: a larger voltage never gives a smaller result. It returns 0 at or above
  \<^verbatim>\<open>3.3f\<close>, hence at or above 3.3, and 999999 at or below 0.
\<close>

theorem calculate_resistance_saturating_monotone:
  assumes "rounding F rnd" "supply_f \<in> F" "0 \<le> pullup"
  shows "(v1 \<in> F \<and> v2 \<in> F \<and> 0 < v1 \<and> v1 \<le> v2 \<and> v2 < supply_f \<longrightarrow>
            calculate_resistance rnd v1 pullup \<le> calculate_resistance rnd v2 pullup)
         \<and> (supply_f \<le> v \<longrightarrow> calculate_resistance rnd v pullup = 0)
         \<and> (33 / 10 \<le> v \<longrightarrow> calculate_resistance rnd v pullup = 0)
         \<and> (v \<le> 0 \<longrightarrow> calculate_resistance rnd v pullup = 999999)"
proof (intro conjI impI)
  assume "v1 \<in> F \<and> v2 \<in> F \<and> 0 < v1 \<and> v1 \<le> v2 \<and> v2 < supply_f"
  then show "calculate_resistance rnd v1 pullup \<le> calculate_resistance rnd v2 pullup"
    using calculate_resistance_mono [OF assms] by blast
next
  assume "supply_f \<le> v"
  then show "calculate_resistance rnd v pullup = 0"
    by (simp add: calculate_resistance_def)
next
  assume "33 / 10 \<le> v"
  then have "supply_f \<le> v"
    by (simp add: supply_f_def)
  then show "calculate_resistance rnd v pullup = 0"
    by (simp add: calculate_resistance_def)
next
  assume "v \<le> 0"
  then show "calculate_resistance rnd v pullup = 999999"
    by (simp add: calculate_resistance_def supply_f_def)
qed

theorem calculate_resistance_saturating_monotone_witness:
  "rounding grid round_grid \<and> supply_f \<in> grid \<and> (0 :: real) \<le> 4700
   \<and> 1 \<in> grid \<and> 2 \<in> grid \<and> (0 :: real) < 1 \<and> (1 :: real) \<le> 2 \<and> 2 < supply_f
   \<and> calculate_resistance round_grid 1 4700 \<le> calculate_resistance round_grid 2 4700
   \<and> calculate_resistance round_grid supply_f 4700 = 0
   \<and> calculate_resistance round_grid (7 / 2) 4700 = 0
   \<and> calculate_resistance round_grid 0 4700 = 999999"
proof -
  have lt: "2 < supply_f"
    by (simp add: supply_f_def)
  have pull: "(0 :: real) \<le> 4700"
    by simp
  show ?thesis
    using calculate_resistance_saturating_monotone [OF rounding_grid grid_members(1) pull,
        of 1 2 supply_f]
      calculate_resistance_saturating_monotone [OF rounding_grid grid_members(1) pull,
        of 1 2 "7 / 2"]
      calculate_resistance_saturating_monotone [OF rounding_grid grid_members(1) pull,
        of 1 2 0]
      rounding_grid grid_members lt
    by simp
qed

end
